theory Spec2Isabelle
  imports Complex_Main
begin

section \<open>The lazy loader of \<^verbatim>\<open>src/index.js\<close>\<close>

text \<open>
  The loader is one closure, \<^verbatim>\<open>lazyLoad(options_)\<close>, whose variables
  (\<^verbatim>\<open>frameLoop\<close>, \<^verbatim>\<open>frameCount\<close>, \<^verbatim>\<open>els\<close>, \<^verbatim>\<open>elsLength\<close>,
  \<^verbatim>\<open>observer\<close>, \<^verbatim>\<open>checkType\<close>) are mutated by callbacks that the browser
  invokes. The embedding passes these variables, together with the part of the browser
  the code reads and writes, as one explicit state. What the browser offers at the moment
  of a call (which APIs exist, the layout, the answer to a selector query) is a value
  of type \<open>env\<close>, an argument of every entry point: it may differ from call to call.

  Modelling conventions.
  \<^item> A DOM node is a reference (a number); the store \<open>nodes\<close> maps references to
    node records, so that an element held in the working set and the element a
    callback receives are the same object.
  \<^item> \<^verbatim>\<open>undefined\<close> is \<open>None\<close>: an array slot set to \<^verbatim>\<open>undefined\<close>, a read past
    the end of an array, an absent attribute (\<^verbatim>\<open>getAttribute\<close> answers \<^verbatim>\<open>null\<close>),
    an unset expando property.
  \<^item> A JavaScript exception is a value of type \<open>error\<close>. A callback returns the
    exception it threw, if any, and the state as it stood at the throw: the closure's
    variables keep what was written before.
  \<^item> The calls from the code into the browser, and the calls of the element updater,
    are appended to \<open>trace\<close>, which the code never reads; it is there so that "how
    often" and "in which order" can be stated.
  \<^item> Pixel coordinates and intersection ratios are rationals: only their order
    matters to the code.
  \<^item> DOM primitives on an existing node (\<^verbatim>\<open>getAttribute\<close>, \<^verbatim>\<open>setAttribute\<close>,
    \<^verbatim>\<open>removeAttribute\<close>, \<^verbatim>\<open>addEventListener\<close>, \<^verbatim>\<open>removeEventListener\<close>, \<^verbatim>\<open>dataset\<close>),
    \<^verbatim>\<open>document.querySelectorAll\<close>, \<^verbatim>\<open>cancelAnimationFrame\<close> and the registration of the
    document listener (line 266) are taken to succeed: the code does not probe for them.
    The calls the code does probe for, or guards, can fail in the model:
    \<^verbatim>\<open>getBoundingClientRect\<close>, \<^verbatim>\<open>requestAnimationFrame\<close>, \<^verbatim>\<open>new IntersectionObserver\<close>,
    and a method call on an \<^verbatim>\<open>observer\<close> that is \<^verbatim>\<open>undefined\<close>.
  \<^item> The third-party \<^verbatim>\<open>picturefill\<close> is opaque: its invocation is recorded, its own
    effects are not modelled.
  Isabelle names cannot start with an underscore: \<^verbatim>\<open>_init\<close> is \<open>init\<close>, and so on.
\<close>

subsection \<open>JavaScript values and errors\<close>

type_synonym ref = nat

datatype jsval = Undefined | Str string | Function

datatype error = TypeError | ReferenceError

text \<open>\<^verbatim>\<open>typeof v\<close> always answers a string.\<close>

fun typeof :: "jsval \<Rightarrow> jsval" where
  "typeof Undefined = Str ''undefined''"
| "typeof (Str s) = Str ''string''"
| "typeof Function = Str ''function''"

fun truthy :: "jsval \<Rightarrow> bool" where
  "truthy Undefined = False"
| "truthy (Str s) = (s \<noteq> [])"
| "truthy Function = True"

text \<open>\<^verbatim>\<open>a === b\<close>: values of different types are never strictly equal. (Two function
  values are compared by identity in JavaScript; the code never compares functions, and
  the model has a single function value.)\<close>

fun strict_eq :: "jsval \<Rightarrow> jsval \<Rightarrow> bool" where
  "strict_eq Undefined Undefined = True"
| "strict_eq (Str a) (Str b) = (a = b)"
| "strict_eq Function Function = True"
| "strict_eq _ _ = False"

text \<open>\<^verbatim>\<open>a || b\<close> on numbers, where \<^verbatim>\<open>a\<close> may be \<^verbatim>\<open>undefined\<close>: \<^verbatim>\<open>0\<close> and \<^verbatim>\<open>undefined\<close>
  are falsy.\<close>

definition num_or :: "rat option \<Rightarrow> rat \<Rightarrow> rat" where
  "num_or a b = (case a of None \<Rightarrow> b | Some x \<Rightarrow> if x = 0 then b else x)"

text \<open>\<^verbatim>\<open>xs[i]\<close>: a read past the end answers \<^verbatim>\<open>undefined\<close>.\<close>

definition js_index :: "'a option list \<Rightarrow> nat \<Rightarrow> 'a option" where
  "js_index xs i = (if i < length xs then xs ! i else None)"

text \<open>\<^verbatim>\<open>a[i] = v\<close>: a write past the end extends the array, the slots between being
  holes (which read as \<^verbatim>\<open>undefined\<close>).\<close>

definition js_store :: "'a option list \<Rightarrow> nat \<Rightarrow> 'a option \<Rightarrow> 'a option list" where
  "js_store xs i v =
     (if i < length xs then xs[i := v] else xs @ replicate (i - length xs) None @ [v])"

text \<open>\<^verbatim>\<open>xs.splice(i, 1)\<close>: removes the slot at \<open>i\<close>, nothing when \<open>i\<close> is past the end.\<close>

definition splice1 :: "'a list \<Rightarrow> nat \<Rightarrow> 'a list" where
  "splice1 xs i = take i xs @ drop (Suc i) xs"

subsection \<open>The browser as the code sees it\<close>

record rect =
  r_top :: rat
  r_left :: rat
  r_bottom :: rat
  r_right :: rat

record env =
  w_addEventListener :: bool
  w_requestAnimationFrame :: jsval
  body_getBoundingClientRect :: jsval
  w_IntersectionObserver :: bool
  w_picturefill :: bool
  innerWidth :: "rat option"
  innerHeight :: "rat option"
  clientWidth :: rat
  clientHeight :: rat
  getBoundingClientRect :: "ref \<Rightarrow> rect"
  querySelectorAll :: "string \<Rightarrow> ref list"

text \<open>
  \<open>w_addEventListener\<close> is \<^verbatim>\<open>'addEventListener' in window\<close>, \<open>w_IntersectionObserver\<close>
  is \<^verbatim>\<open>'IntersectionObserver' in window\<close>, \<open>w_picturefill\<close> says that
  \<^verbatim>\<open>window.picturefill\<close> is present; \<open>w_requestAnimationFrame\<close> and
  \<open>body_getBoundingClientRect\<close> are the values of \<^verbatim>\<open>window.requestAnimationFrame\<close> and
  of the \<^verbatim>\<open>getBoundingClientRect\<close> member of elements. \<open>getBoundingClientRect\<close> is the
  layout: the rectangle the browser answers for a node.
\<close>

record element =
  tagName :: string
  parentNode :: "ref option"
  attrs :: "string \<rightharpoonup> string"
  src :: "string option"
  lazyloaded :: "bool option"
  load_listener :: bool

text \<open>
  \<open>attrs\<close> are the DOM attributes, \<open>src\<close> the \<^verbatim>\<open>src\<close> property the code assigns,
  \<open>lazyloaded\<close> the expando property of the polling strategy, \<open>load_listener\<close> whether
  \<^verbatim>\<open>_loaded\<close> is registered for \<^verbatim>\<open>load\<close> (the browser keeps one registration per
  listener function).
\<close>

record entry =
  target :: ref
  intersectionRatio :: rat

datatype strategy = ReallyOld | Old | New

record options =
  pageUpdatedEventName :: "string option"
  elements :: string
  rootMargin :: string
  threshold :: rat
  maxFrameCount :: int

record overrides =
  o_pageUpdatedEventName :: "string option option"
  o_elements :: "string option"
  o_rootMargin :: "string option"
  o_threshold :: "rat option"
  o_maxFrameCount :: "int option"

datatype call =
    RequestAnimationFrame nat
  | CancelAnimationFrame "nat option"
  | NewIntersectionObserver
  | Observe ref
  | Unobserve ref
  | Disconnect
  | AddLoadListener ref
  | RectOf ref
  | Picturefill ref
  | UpdateElement ref

record state =
  options :: options
  frameLoop :: "nat option"
  frameCount :: int
  els :: "ref option list"
  elsLength :: int
  observer :: "ref list option"
  checkType :: "strategy option"
  nodes :: "ref \<Rightarrow> element"
  pending :: "nat list"
  next_handle :: nat
  doc_listener :: "string option"
  trace :: "call list"

text \<open>
  The first seven fields are the closure's variables (lines 3 to 18); \<open>observer\<close> holds
  the targets of the current observer, \<open>None\<close> while the variable is \<^verbatim>\<open>undefined\<close>.
  The others are the browser's side: the node store, the handles of the animation-frame
  callbacks requested and not yet run or cancelled, the next handle the browser will
  issue, the name under which \<^verbatim>\<open>_init\<close> listens on the document, and the trace.
\<close>

subsection \<open>Options (lines 3 to 10 and 246 to 250)\<close>

definition defaults :: options where
  "defaults = \<lparr> pageUpdatedEventName = Some ''page:updated'',
      elements = ''img[data-src], img[data-srcset], source[data-srcset], iframe[data-src], video[data-src], [data-lazyload]'',
      rootMargin = ''0px'',
      threshold = 0,
      maxFrameCount = 10 \<rparr>"

definition merge_options :: "overrides \<Rightarrow> options" where
  "merge_options ov = \<lparr>
      pageUpdatedEventName =
        (case o_pageUpdatedEventName ov of None \<Rightarrow> pageUpdatedEventName defaults | Some v \<Rightarrow> v),
      elements = (case o_elements ov of None \<Rightarrow> elements defaults | Some v \<Rightarrow> v),
      rootMargin = (case o_rootMargin ov of None \<Rightarrow> rootMargin defaults | Some v \<Rightarrow> v),
      threshold = (case o_threshold ov of None \<Rightarrow> threshold defaults | Some v \<Rightarrow> v),
      maxFrameCount = (case o_maxFrameCount ov of None \<Rightarrow> maxFrameCount defaults | Some v \<Rightarrow> v) \<rparr>"

subsection \<open>\<^verbatim>\<open>_htmlCollectionToArray\<close> (lines 26 to 34)\<close>

text \<open>\<^verbatim>\<open>for (a = [], i = collection.length; i; ) a[--i] = collection[i]\<close>\<close>

fun copy_down :: "ref list \<Rightarrow> nat \<Rightarrow> ref option list \<Rightarrow> ref option list" where
  "copy_down c 0 a = a"
| "copy_down c (Suc i) a = copy_down c i (js_store a i (js_index (map Some c) i))"

definition htmlCollectionToArray :: "ref list \<Rightarrow> ref option list" where
  "htmlCollectionToArray c = copy_down c (length c) []"

subsection \<open>\<^verbatim>\<open>_elementInViewport\<close> (lines 42 to 51)\<close>

text \<open>
  Answers the node that was measured and the verdict. A \<^verbatim>\<open>source\<close> element without a
  parent (\<^verbatim>\<open>parentNode\<close> is \<^verbatim>\<open>null\<close>), or an environment whose elements have no
  \<^verbatim>\<open>getBoundingClientRect\<close> function, makes the call throw a TypeError.
\<close>

definition elementInViewport :: "env \<Rightarrow> (ref \<Rightarrow> element) \<Rightarrow> ref \<Rightarrow> error + ref \<times> bool" where
  "elementInViewport e ns r =
     (case (if tagName (ns r) = ''SOURCE'' then parentNode (ns r) else Some r) of
        None \<Rightarrow> Inl TypeError
      | Some n \<Rightarrow>
          if body_getBoundingClientRect e \<noteq> Function then Inl TypeError
          else
            let rc = getBoundingClientRect e n in
            Inr (n,
              0 < r_bottom rc \<and>
              0 < r_right rc \<and>
              r_left rc < num_or (innerWidth e) (clientWidth e) \<and>
              r_top rc < num_or (innerHeight e) (clientHeight e)))"

subsection \<open>\<^verbatim>\<open>_removeDataAttrs\<close>, \<^verbatim>\<open>_loaded\<close>, \<^verbatim>\<open>_updateElement\<close> (lines 58 to 103)\<close>

definition removeDataAttrs :: "element \<Rightarrow> element" where
  "removeDataAttrs el =
     el\<lparr>attrs := (attrs el)(''data-src'' := None, ''data-srcset'' := None, ''data-lazyload'' := None)\<rparr>"

definition loaded :: "element \<Rightarrow> element" where
  "loaded this = removeDataAttrs (this\<lparr>load_listener := False\<rparr>)"

text \<open>A string is truthy when it is not empty; \<^verbatim>\<open>null\<close> is falsy.\<close>

definition present :: "string option \<Rightarrow> bool" where
  "present v = (case v of None \<Rightarrow> False | Some s \<Rightarrow> s \<noteq> [])"

text \<open>The second component says whether \<^verbatim>\<open>window.picturefill\<close> was invoked on the
  element.\<close>

definition updateElement :: "env \<Rightarrow> element \<Rightarrow> element \<times> bool" where
  "updateElement e el =
     (let srcset = attrs el ''data-srcset'';
          srcv = attrs el ''data-src'';
          dlazyload = (attrs el ''data-lazyload'' \<noteq> None);
          el1 = (if present srcset then el\<lparr>attrs := (attrs el)(''srcset'' := srcset)\<rparr> else el);
          reflow = (present srcset \<and> w_picturefill e);
          el2 = (if present srcv then el1\<lparr>src := srcv\<rparr> else el1);
          el3 = (if dlazyload
                 then removeDataAttrs
                        (el2\<lparr>attrs := (attrs el2)(''data-lazyloaded'' \<mapsto> []),
                             load_listener := False\<rparr>)
                 else el2)
      in (el3, reflow))"

text \<open>The same three functions, applied to the node a reference denotes.\<close>

definition updateNode :: "env \<Rightarrow> ref \<Rightarrow> state \<Rightarrow> state" where
  "updateNode e r st =
     (let (el, reflow) = updateElement e (nodes st r) in
      st\<lparr>nodes := (nodes st)(r := el),
         trace := trace st @ UpdateElement r # (if reflow then [Picturefill r] else [])\<rparr>)"

definition removeDataAttrsNode :: "ref \<Rightarrow> state \<Rightarrow> state" where
  "removeDataAttrsNode r st = st\<lparr>nodes := (nodes st)(r := removeDataAttrs (nodes st r))\<rparr>"

text \<open>\<^verbatim>\<open>element.addEventListener('load', _loaded, false)\<close>\<close>

definition addLoadListener :: "ref \<Rightarrow> state \<Rightarrow> state" where
  "addLoadListener r st =
     st\<lparr>nodes := (nodes st)(r := (nodes st r)\<lparr>load_listener := True\<rparr>),
        trace := trace st @ [AddLoadListener r]\<rparr>"

subsection \<open>\<^verbatim>\<open>_intersection\<close> (lines 110 to 127)\<close>

text \<open>\<^verbatim>\<open>observer.disconnect()\<close>: a TypeError while \<^verbatim>\<open>observer\<close> is \<^verbatim>\<open>undefined\<close>.\<close>

definition disconnect :: "state \<Rightarrow> error + state" where
  "disconnect st =
     (case observer st of
        None \<Rightarrow> Inl TypeError
      | Some ts \<Rightarrow> Inr (st\<lparr>observer := Some [], trace := trace st @ [Disconnect]\<rparr>))"

definition intersect_entry :: "env \<Rightarrow> entry \<Rightarrow> state \<Rightarrow> error option \<times> state" where
  "intersect_entry e en st =
     (if 0 < intersectionRatio en then
        (let st1 = st\<lparr>elsLength := elsLength st - 1\<rparr> in
         case observer st1 of
           None \<Rightarrow> (Some TypeError, st1)
         | Some ts \<Rightarrow>
             (None,
              updateNode e (target en)
                (addLoadListener (target en)
                  (st1\<lparr>observer := Some (removeAll (target en) ts),
                       trace := trace st1 @ [Unobserve (target en)]\<rparr>))))
      else (None, st))"

fun for_entries :: "env \<Rightarrow> entry list \<Rightarrow> state \<Rightarrow> error option \<times> state" where
  "for_entries e [] st = (None, st)"
| "for_entries e (en # ens) st =
     (case intersect_entry e en st of
        (Some err, st1) \<Rightarrow> (Some err, st1)
      | (None, st1) \<Rightarrow> for_entries e ens st1)"

definition intersection :: "env \<Rightarrow> entry list \<Rightarrow> state \<Rightarrow> error option \<times> state" where
  "intersection e ens st =
     (if elsLength st = 0 then
        (case disconnect st of
           Inl err \<Rightarrow> (Some err, st)
         | Inr st1 \<Rightarrow> for_entries e ens st1)
      else for_entries e ens st)"

subsection \<open>\<^verbatim>\<open>_setSrcs\<close> (lines 133 to 214)\<close>

text \<open>Case \<^verbatim>\<open>'really-old'\<close>, the body of the loop of lines 139 to 144.\<close>

definition really_old_elem :: "env \<Rightarrow> state \<Rightarrow> ref option \<Rightarrow> state" where
  "really_old_elem e st x =
     (case x of None \<Rightarrow> st | Some r \<Rightarrow> removeDataAttrsNode r (updateNode e r st))"

text \<open>Case \<^verbatim>\<open>'old'\<close>, the body of the loop of lines 156 to 174 at index \<open>i\<close>.\<close>

definition scan_elem :: "env \<Rightarrow> nat \<Rightarrow> state \<Rightarrow> error option \<times> state" where
  "scan_elem e i st =
     (case js_index (els st) i of
        None \<Rightarrow> (None, st)
      | Some r \<Rightarrow>
          if lazyloaded (nodes st r) \<noteq> None then (None, st)
          else
            (case elementInViewport e (nodes st) r of
               Inl err \<Rightarrow> (Some err, st)
             | Inr (n, visible) \<Rightarrow>
                 let st1 = st\<lparr>trace := trace st @ [RectOf n]\<rparr> in
                 if \<not> visible then (None, st1)
                 else
                   (None,
                    updateNode e r
                      (addLoadListener r
                        (st1\<lparr>els := (els st1)[i := None],
                             nodes := (nodes st1)(r := (nodes st1 r)\<lparr>lazyloaded := Some True\<rparr>)\<rparr>)))))"

function scan_from :: "env \<Rightarrow> nat \<Rightarrow> nat \<Rightarrow> state \<Rightarrow> error option \<times> state" where
  "scan_from e i n st =
     (if i < n then
        (case scan_elem e i st of
           (Some err, st1) \<Rightarrow> (Some err, st1)
         | (None, st1) \<Rightarrow> scan_from e (Suc i) n st1)
      else (None, st))"
  by pat_completeness auto
termination
  by (relation "measure (\<lambda>(e, i, n, st). n - i)") auto

text \<open>The clean-up loop of lines 177 to 181: the index advances after a removal too,
  and the bound is the length from before the removals.\<close>

function compact_from :: "nat \<Rightarrow> nat \<Rightarrow> ref option list \<Rightarrow> ref option list" where
  "compact_from i n xs =
     (if i < n then
        compact_from (Suc i) n (if js_index xs i = None then splice1 xs i else xs)
      else xs)"
  by pat_completeness auto
termination
  by (relation "measure (\<lambda>(i, n, xs). n - i)") auto

text \<open>Lines 190 to 193. Calling \<^verbatim>\<open>window.requestAnimationFrame\<close> when it is not a
  function throws, after \<^verbatim>\<open>frameCount++\<close>.\<close>

definition reschedule :: "env \<Rightarrow> state \<Rightarrow> error option \<times> state" where
  "reschedule e st =
     (if 0 < elsLength st then
        (let st1 = st\<lparr>frameCount := frameCount st + 1\<rparr>; h = next_handle st1 in
         if w_requestAnimationFrame e = Function then
           (None,
            st1\<lparr>frameLoop := Some h,
                pending := pending st1 @ [h],
                next_handle := Suc h,
                trace := trace st1 @ [RequestAnimationFrame h]\<rparr>)
         else (Some TypeError, st1))
      else (None, st))"

text \<open>Case \<^verbatim>\<open>'new'\<close>, the loop of lines 204 to 208; \<^verbatim>\<open>observe\<close> on a target that is
  already observed adds nothing.\<close>

definition observe :: "ref \<Rightarrow> state \<Rightarrow> state" where
  "observe r st =
     st\<lparr>observer := map_option (\<lambda>ts. if r \<in> set ts then ts else ts @ [r]) (observer st),
        trace := trace st @ [Observe r]\<rparr>"

definition observe_elem :: "state \<Rightarrow> ref option \<Rightarrow> state" where
  "observe_elem st x =
     (case x of
        None \<Rightarrow> st
      | Some r \<Rightarrow> if lazyloaded (nodes st r) = None then observe r st else st)"

text \<open>The \<^verbatim>\<open>switch\<close> has no default: with \<^verbatim>\<open>checkType\<close> still \<^verbatim>\<open>undefined\<close> nothing
  happens. \<^verbatim>\<open>new IntersectionObserver\<close> throws a ReferenceError where the name is not
  defined.\<close>

definition setSrcs :: "env \<Rightarrow> state \<Rightarrow> error option \<times> state" where
  "setSrcs e st =
     (case checkType st of
        None \<Rightarrow> (None, st)
      | Some ReallyOld \<Rightarrow>
          (None,
           (foldl (really_old_elem e) (st\<lparr>elsLength := int (length (els st))\<rparr>) (els st))
             \<lparr>els := []\<rparr>)
      | Some Old \<Rightarrow>
          if frameCount st = maxFrameCount (options st) then
            (case scan_from e 0 (length (els st)) (st\<lparr>elsLength := int (length (els st))\<rparr>) of
               (Some err, st1) \<Rightarrow> (Some err, st1)
             | (None, st1) \<Rightarrow>
                 let xs = compact_from 0 (nat (elsLength st1)) (els st1) in
                 reschedule e (st1\<lparr>els := xs, elsLength := int (length xs), frameCount := - 1\<rparr>))
          else reschedule e st
      | Some New \<Rightarrow>
          if \<not> w_IntersectionObserver e then (Some ReferenceError, st)
          else
            (None,
             foldl observe_elem
               (st\<lparr>observer := Some [],
                   elsLength := int (length (els st)),
                   trace := trace st @ [NewIntersectionObserver]\<rparr>)
               (els st)))"

subsection \<open>\<^verbatim>\<open>_init\<close> (lines 220 to 238)\<close>

text \<open>Lines 222 to 230. \<^verbatim>\<open>cancelAnimationFrame\<close> of a handle that is not pending, or
  of \<^verbatim>\<open>undefined\<close>, does nothing; what \<^verbatim>\<open>observer.disconnect()\<close> throws is caught.\<close>

definition teardown :: "state \<Rightarrow> state" where
  "teardown st =
     (case checkType st of
        Some Old \<Rightarrow>
          st\<lparr>pending := (case frameLoop st of None \<Rightarrow> pending st | Some h \<Rightarrow> removeAll h (pending st)),
             trace := trace st @ [CancelAnimationFrame (frameLoop st)]\<rparr>
      | Some New \<Rightarrow> (case disconnect st of Inl err \<Rightarrow> st | Inr st1 \<Rightarrow> st1)
      | _ \<Rightarrow> st)"

definition init :: "env \<Rightarrow> state \<Rightarrow> error option \<times> state" where
  "init e st =
     (let st1 = teardown st;
          a = htmlCollectionToArray (querySelectorAll e (elements (options st1)))
      in setSrcs e (st1\<lparr>els := a, elsLength := int (length a),
                        frameCount := maxFrameCount (options st1)\<rparr>))"

subsection \<open>\<^verbatim>\<open>_lazyLoad\<close> (lines 245 to 268)\<close>

text \<open>The capability check of lines 252 to 262.\<close>

definition detect :: "env \<Rightarrow> strategy" where
  "detect e =
     (if \<not> w_addEventListener e \<or>
         \<not> truthy (w_requestAnimationFrame e) \<or>
         strict_eq (typeof (body_getBoundingClientRect e)) Undefined
      then ReallyOld
      else if w_IntersectionObserver e then New
      else Old)"

text \<open>The closure's variables as declared, over a document whose nodes are \<open>ns\<close>. The
  initial \<open>frameCount\<close> and \<open>elsLength\<close> stand for \<^verbatim>\<open>undefined\<close>; \<open>init\<close> assigns both
  before anything reads them.\<close>

definition initial :: "(ref \<Rightarrow> element) \<Rightarrow> state" where
  "initial ns = \<lparr> options = defaults, frameLoop = None, frameCount = 0, els = [],
      elsLength = 0, observer = None, checkType = None, nodes = ns, pending = [],
      next_handle = 0, doc_listener = None, trace = [] \<rparr>"

definition lazyLoad :: "env \<Rightarrow> overrides \<Rightarrow> (ref \<Rightarrow> element) \<Rightarrow> error option \<times> state" where
  "lazyLoad e ov ns =
     (let st0 = (initial ns)\<lparr>options := merge_options ov, checkType := Some (detect e)\<rparr> in
      case init e st0 of
        (Some err, st1) \<Rightarrow> (Some err, st1)
      | (None, st1) \<Rightarrow>
          (None,
           if present (pageUpdatedEventName (options st1))
           then st1\<lparr>doc_listener := pageUpdatedEventName (options st1)\<rparr>
           else st1))"

subsection \<open>The callbacks the browser invokes\<close>

text \<open>
  \<open>Frame\<close>: the oldest pending animation-frame callback runs (\<^verbatim>\<open>_setSrcs\<close>);
  \<open>Load r\<close>: the \<^verbatim>\<open>load\<close> event fires on node \<open>r\<close> (\<^verbatim>\<open>_loaded\<close>, if registered);
  \<open>Intersect ens\<close>: the observer, if there is one, delivers a batch (\<^verbatim>\<open>_intersection\<close>);
  \<open>PageUpdated n\<close>: the document event named \<open>n\<close> occurs (\<^verbatim>\<open>_init\<close>, if registered for \<open>n\<close>).
  An exception that leaves a callback goes to the browser; the state stays.
\<close>

datatype event = Frame | Load ref | Intersect "entry list" | PageUpdated string

definition step :: "state \<Rightarrow> env \<times> event \<Rightarrow> state" where
  "step st x =
     (case x of
        (e, Frame) \<Rightarrow>
          (case pending st of [] \<Rightarrow> st | h # hs \<Rightarrow> snd (setSrcs e (st\<lparr>pending := hs\<rparr>)))
      | (e, Load r) \<Rightarrow>
          if load_listener (nodes st r)
          then st\<lparr>nodes := (nodes st)(r := loaded (nodes st r))\<rparr> else st
      | (e, Intersect ens) \<Rightarrow>
          if observer st \<noteq> None then snd (intersection e ens st) else st
      | (e, PageUpdated n) \<Rightarrow>
          if doc_listener st = Some n then snd (init e st) else st)"

definition run :: "(env \<times> event) list \<Rightarrow> state \<Rightarrow> state" where
  "run xs st = foldl step st xs"

definition frames :: "env list \<Rightarrow> state \<Rightarrow> state" where
  "frames es st = run (map (\<lambda>e. (e, Frame)) es) st"

subsection \<open>Small documents and browsers, for evaluating the model\<close>

definition blank :: element where
  "blank = \<lparr> tagName = ''IMG'', parentNode = None, attrs = Map.empty, src = None,
      lazyloaded = None, load_listener = False \<rparr>"

definition visible_rect :: rect where
  "visible_rect = \<lparr> r_top = 0, r_left = 0, r_bottom = 10, r_right = 10 \<rparr>"

text \<open>A browser with event listeners and animation frames, a 100 by 100 viewport in
  which every node is visible, \<open>g\<close> as the elements' \<^verbatim>\<open>getBoundingClientRect\<close>,
  an IntersectionObserver if \<open>io\<close>, and \<open>found\<close> as the answer to every selector query.\<close>

definition browser :: "jsval \<Rightarrow> bool \<Rightarrow> ref list \<Rightarrow> env" where
  "browser g io found = \<lparr> w_addEventListener = True, w_requestAnimationFrame = Function,
      body_getBoundingClientRect = g, w_IntersectionObserver = io, w_picturefill = False,
      innerWidth = Some 100, innerHeight = Some 100, clientWidth = 100, clientHeight = 100,
      getBoundingClientRect = (\<lambda>r. visible_rect), querySelectorAll = (\<lambda>s. found) \<rparr>"

definition no_overrides :: overrides where
  "no_overrides = \<lparr> o_pageUpdatedEventName = None, o_elements = None, o_rootMargin = None,
      o_threshold = None, o_maxFrameCount = None \<rparr>"

text \<open>A document in which every node is \<^verbatim>\<open><img data-src="a.png">\<close>, and the element
  \<^verbatim>\<open><div data-lazyload data-src="a.png">\<close>.\<close>

definition page :: "ref \<Rightarrow> element" where
  "page = (\<lambda>r. blank\<lparr>attrs := [''data-src'' \<mapsto> ''a.png'']\<rparr>)"

definition marked :: element where
  "marked = blank\<lparr>tagName := ''DIV'',
      attrs := [''data-lazyload'' \<mapsto> [], ''data-src'' \<mapsto> ''a.png'']\<rparr>"

subsection \<open>Notions used in the statements\<close>

text \<open>Two states agree on what \<^verbatim>\<open>_lazyLoad\<close> sets up once: the strategy, the options
  and the registration on the document.\<close>

definition same_setup :: "state \<Rightarrow> state \<Rightarrow> bool" where
  "same_setup st st' = (checkType st' = checkType st \<and> options st' = options st
     \<and> doc_listener st' = doc_listener st)"

text \<open>An element without any of the three deferred attributes.\<close>

definition no_deferred :: "element \<Rightarrow> bool" where
  "no_deferred el = (attrs el ''data-src'' = None \<and> attrs el ''data-srcset'' = None
     \<and> attrs el ''data-lazyload'' = None)"

text \<open>The nodes the updater was called on, in the order of the calls.\<close>

fun updates :: "call list \<Rightarrow> ref list" where
  "updates [] = []"
| "updates (UpdateElement r # cs) = r # updates cs"
| "updates (c # cs) = updates cs"

text \<open>Node \<open>r\<close> of a document that started as \<open>ns\<close> is activated and stripped: no
  deferred attribute is left, and a non-empty deferred source or source set it started
  with is now its live one.\<close>

definition activated :: "(ref \<Rightarrow> element) \<Rightarrow> state \<Rightarrow> ref \<Rightarrow> bool" where
  "activated ns st r =
     (no_deferred (nodes st r)
      \<and> (present (attrs (ns r) ''data-src'') \<longrightarrow> src (nodes st r) = attrs (ns r) ''data-src'')
      \<and> (present (attrs (ns r) ''data-srcset'') \<longrightarrow>
           attrs (nodes st r) ''srcset'' = attrs (ns r) ''data-srcset''))"

text \<open>A browser without \<^verbatim>\<open>addEventListener\<close>.\<close>

definition ancient :: "ref list \<Rightarrow> env" where
  "ancient found = (browser Function False found)\<lparr>w_addEventListener := False\<rparr>"

text \<open>The nodes \<^verbatim>\<open>unobserve\<close> was called on, in the order of the calls.\<close>

fun unobserves :: "call list \<Rightarrow> ref list" where
  "unobserves [] = []"
| "unobserves (Unobserve r # cs) = r # unobserves cs"
| "unobserves (c # cs) = unobserves cs"

text \<open>The targets of the entries of a batch whose ratio is positive, in batch order
  (a target is listed once for each such entry).\<close>

definition positive :: "entry list \<Rightarrow> ref list" where
  "positive ens = map target (filter (\<lambda>en. 0 < intersectionRatio en) ens)"

text \<open>A page of two images under observation, and a batch in which the first is
  outside the viewport and the second half inside.\<close>

definition observing :: state where
  "observing = snd (lazyLoad (browser Function True [0, 1]) no_overrides page)"

definition batch :: "entry list" where
  "batch = [\<lparr>target = 0, intersectionRatio = 0\<rparr>, \<lparr>target = 1, intersectionRatio = 1 / 2\<rparr>]"

text \<open>The state \<^verbatim>\<open>_lazyLoad\<close> hands to its call of \<^verbatim>\<open>_init\<close> (after line 262).\<close>

definition configured :: "env \<Rightarrow> overrides \<Rightarrow> (ref \<Rightarrow> element) \<Rightarrow> state" where
  "configured e ov ns = (initial ns)\<lparr>options := merge_options ov, checkType := Some (detect e)\<rparr>"

text \<open>The next animation-frame callback will scan the working set: a callback is
  pending, the strategy is \<^verbatim>\<open>'old'\<close>, and the test of line 153 holds.\<close>

definition scans :: "state \<Rightarrow> bool" where
  "scans st = (pending st \<noteq> [] \<and> checkType st = Some Old
     \<and> frameCount st = maxFrameCount (options st))"

text \<open>At most one animation-frame callback is pending, and \<^verbatim>\<open>frameLoop\<close> is its handle.\<close>

definition one_loop :: "state \<Rightarrow> bool" where
  "one_loop st = (pending st = [] \<or> map Some (pending st) = [frameLoop st])"

text \<open>The nodes whose rectangle was asked for, in the order of the calls.\<close>

fun rects :: "call list \<Rightarrow> ref list" where
  "rects [] = []"
| "rects (RectOf r # cs) = r # rects cs"
| "rects (c # cs) = rects cs"

text \<open>What the loop over the working set (lines 156 to 174) leaves alone, and what
  the observer's callback leaves alone.\<close>

definition same_schedule :: "state \<Rightarrow> state \<Rightarrow> bool" where
  "same_schedule st st' = (pending st' = pending st \<and> frameCount st' = frameCount st
     \<and> frameLoop st' = frameLoop st \<and> next_handle st' = next_handle st
     \<and> observer st' = observer st \<and> elsLength st' = elsLength st)"

definition same_frames :: "state \<Rightarrow> state \<Rightarrow> bool" where
  "same_frames st st' = (pending st' = pending st \<and> frameLoop st' = frameLoop st)"

text \<open>A browser without IntersectionObserver in which every node lies below the
  viewport, and the option \<^verbatim>\<open>{maxFrameCount: 2}\<close>.\<close>

definition offscreen_rect :: rect where
  "offscreen_rect = \<lparr> r_top = 1000, r_left = 0, r_bottom = 1010, r_right = 10 \<rparr>"

definition below_fold :: "ref list \<Rightarrow> env" where
  "below_fold found =
     (browser Function False found)\<lparr>getBoundingClientRect := (\<lambda>r. offscreen_rect)\<rparr>"

definition every_2_frames :: overrides where
  "every_2_frames = no_overrides\<lparr>o_maxFrameCount := Some 2\<rparr>"

text \<open>Two states have the same nodes and the same record of updater calls.\<close>

definition quiet :: "state \<Rightarrow> state \<Rightarrow> bool" where
  "quiet s s' = (nodes s' = nodes s \<and> updates (trace s') = updates (trace s))"

text \<open>No node was handed to the updater twice, and each node that was handed to it
  has its \<^verbatim>\<open>lazyloaded\<close> flag set.\<close>

definition once :: "state \<Rightarrow> bool" where
  "once s = (distinct (updates (trace s))
     \<and> (\<forall>r \<in> set (updates (trace s)). lazyloaded (nodes s r) = Some True))"

definition stays_once :: "state \<Rightarrow> state \<Rightarrow> bool" where
  "stays_once s s' = (once s \<longrightarrow> once s')"

text \<open>If node \<open>r\<close> is flagged in \<open>s\<close>, it is the same in \<open>s'\<close>.\<close>

definition settled :: "ref \<Rightarrow> state \<Rightarrow> state \<Rightarrow> bool" where
  "settled r s s' = (lazyloaded (nodes s r) \<noteq> None \<longrightarrow> nodes s' r = nodes s r)"

text \<open>A page of two images in a browser without IntersectionObserver, both visible,
  and what may happen next: animation frames, the first image finishing to load, and
  a re-scan.\<close>

definition polled :: state where
  "polled = snd (lazyLoad (browser Function False [0, 1]) no_overrides page)"

definition later :: "(env \<times> event) list" where
  "later = [(browser Function False [0, 1], Frame), (browser Function False [0, 1], Load 0),
     (browser Function False [0, 1], PageUpdated ''page:updated''),
     (browser Function False [0, 1], Frame)]"

text \<open>The three deferred attributes of an element: \<^verbatim>\<open>data-src\<close>, \<^verbatim>\<open>data-srcset\<close>,
  \<^verbatim>\<open>data-lazyload\<close>.\<close>

definition deferred :: "element \<Rightarrow> string option \<times> string option \<times> string option" where
  "deferred el = (attrs el ''data-src'', attrs el ''data-srcset'', attrs el ''data-lazyload'')"

text \<open>If node \<open>r\<close> has no generic marker in \<open>s\<close>, its deferred attributes are the same
  in \<open>s'\<close>.\<close>

definition keeps :: "ref \<Rightarrow> state \<Rightarrow> state \<Rightarrow> bool" where
  "keeps r s s' =
     (attrs (nodes s r) ''data-lazyload'' = None \<longrightarrow> deferred (nodes s' r) = deferred (nodes s r))"

text \<open>One image below the viewport, polled every two frames: the state after two idle
  frames, and the state after the user has scrolled and the third frame has scanned.\<close>

definition waiting :: state where
  "waiting = frames [below_fold [0], below_fold [0]]
     (snd (lazyLoad (below_fold [0]) every_2_frames page))"

definition scrolled :: state where
  "scrolled = step waiting (browser Function False [0], Frame)"

text \<open>The state in which \<^verbatim>\<open>_init\<close> calls \<^verbatim>\<open>_setSrcs\<close> (line 237), in the environment \<open>e\<close> of
  the moment: the previous loop or observer torn down, the working set rebuilt from the
  answer to the selector query, the counter at its maximum.\<close>

definition rebuilt :: "env \<Rightarrow> state \<Rightarrow> state" where
  "rebuilt e st =
     (teardown st)\<lparr>els := map Some (querySelectorAll e (elements (options st))),
        elsLength := int (length (querySelectorAll e (elements (options st)))),
        frameCount := maxFrameCount (options st)\<rparr>"

text \<open>One visible image loaded in a browser without IntersectionObserver; later the
  browser has IntersectionObserver (a polyfill has arrived, say) and the document holds
  a second image.\<close>

definition first_load :: state where
  "first_load = snd (lazyLoad (browser Function False [0]) no_overrides page)"

definition upgraded :: env where
  "upgraded = browser Function True [0, 1]"

section \<open>Properties\<close>

subsection \<open>Basic facts\<close>

lemma typeof_never_undefined: "\<not> strict_eq (typeof v) Undefined"
  by (cases v) simp_all

subsection \<open>The capability check\<close>

text \<open>
  Claim C1. The detector is to answer \<^verbatim>\<open>'really-old'\<close> whenever event listening,
  animation frames or \<^verbatim>\<open>getBoundingClientRect\<close> is missing. The code compares
  \<^verbatim>\<open>typeof document.body.getBoundingClientRect\<close>, a string, with the value
  \<^verbatim>\<open>undefined\<close>, which is never equal to a string: the third test is always false.
  In an environment that has event listening and animation frames and lacks
  \<^verbatim>\<open>getBoundingClientRect\<close>, the detector therefore selects \<^verbatim>\<open>'new'\<close> or \<^verbatim>\<open>'old'\<close>,
  never \<^verbatim>\<open>'really-old'\<close>.
\<close>

theorem detect_without_geometry:
  assumes "w_addEventListener e"
    and "truthy (w_requestAnimationFrame e)"
    and "body_getBoundingClientRect e = Undefined"
  shows "detect e = (if w_IntersectionObserver e then New else Old)"
  using assms by (simp add: detect_def)

theorem detect_without_geometry_witness:
  "detect (browser Undefined False []) = Old \<and> detect (browser Undefined True []) = New"
  using detect_without_geometry [of "browser Undefined False []"]
    detect_without_geometry [of "browser Undefined True []"]
  by (simp add: browser_def)

text \<open>In such an environment the first scan of the polling strategy calls the missing
  function: \<^verbatim>\<open>lazyLoad\<close> ends with a TypeError, before any element is updated.\<close>

lemma polling_without_geometry_throws:
  "fst (lazyLoad (browser Undefined False [0]) no_overrides page) = Some TypeError
   \<and> updates (trace (snd (lazyLoad (browser Undefined False [0]) no_overrides page))) = []"
  by code_simp

subsection \<open>The element updater\<close>

text \<open>
  Claim C7. On an element that carries the generic marker \<^verbatim>\<open>data-lazyload\<close>, the first
  call of the updater sets the loaded marker \<^verbatim>\<open>data-lazyloaded\<close> and removes the three
  deferred attributes; a second call on the element then changes nothing of it (no
  attribute, no property, no listener) and does not invoke the reflow.
\<close>

theorem updateElement_marker_twice:
  assumes "attrs el ''data-lazyload'' \<noteq> None"
  shows "attrs (fst (updateElement e el)) ''data-lazyloaded'' = Some []
    \<and> attrs (fst (updateElement e el)) ''data-src'' = None
    \<and> attrs (fst (updateElement e el)) ''data-srcset'' = None
    \<and> attrs (fst (updateElement e el)) ''data-lazyload'' = None
    \<and> updateElement e (fst (updateElement e el)) = (fst (updateElement e el), False)"
  using assms by (simp add: updateElement_def present_def removeDataAttrs_def Let_def)

theorem updateElement_marker_twice_witness:
  "attrs marked ''data-lazyload'' \<noteq> None
    \<and> attrs (fst (updateElement (browser Function True []) marked)) ''data-lazyloaded'' = Some []
    \<and> src (fst (updateElement (browser Function True []) marked)) = Some ''a.png''
    \<and> updateElement (browser Function True []) (fst (updateElement (browser Function True []) marked))
        = (fst (updateElement (browser Function True []) marked), False)"
proof -
  have h: "attrs marked ''data-lazyload'' \<noteq> None"
    by (simp add: marked_def)
  have "src (fst (updateElement (browser Function True []) marked)) = Some ''a.png''"
    by (simp add: updateElement_def present_def removeDataAttrs_def Let_def marked_def blank_def)
  with h updateElement_marker_twice [OF h, of "browser Function True []"] show ?thesis
    by simp
qed

text \<open>
  Claim C10. On an element that carries none of \<^verbatim>\<open>data-src\<close>, \<^verbatim>\<open>data-srcset\<close> and
  \<^verbatim>\<open>data-lazyload\<close>, the updater answers the element as it received it (attributes,
  \<^verbatim>\<open>src\<close>, the \<^verbatim>\<open>load\<close> listener and the \<^verbatim>\<open>lazyloaded\<close> flag all as before) and does not
  invoke the reflow; in the state, only the trace grows, by the record of the call.
\<close>

theorem updateElement_without_deferred:
  assumes "attrs (nodes st r) ''data-src'' = None"
    and "attrs (nodes st r) ''data-srcset'' = None"
    and "attrs (nodes st r) ''data-lazyload'' = None"
  shows "updateElement e (nodes st r) = (nodes st r, False)
    \<and> updateNode e r st = st\<lparr>trace := trace st @ [UpdateElement r]\<rparr>"
  using assms by (simp add: updateElement_def updateNode_def present_def)

theorem updateElement_without_deferred_witness:
  "attrs (nodes (initial (\<lambda>r. blank)) 3) ''data-src'' = None
    \<and> updateElement (browser Function True []) (nodes (initial (\<lambda>r. blank)) 3) = (blank, False)
    \<and> trace (updateNode (browser Function True []) 3 (initial (\<lambda>r. blank))) = [UpdateElement 3]"
  using updateElement_without_deferred [of "initial (\<lambda>r. blank)" 3 "browser Function True []"]
  by (simp add: initial_def blank_def)

subsection \<open>What the callbacks leave alone\<close>

declare scan_from.simps [simp del] compact_from.simps [simp del]

lemma updateNode_fields [simp]:
  "checkType (updateNode e r st) = checkType st"
  "options (updateNode e r st) = options st"
  "doc_listener (updateNode e r st) = doc_listener st"
  "observer (updateNode e r st) = observer st"
  "pending (updateNode e r st) = pending st"
  "frameCount (updateNode e r st) = frameCount st"
  "frameLoop (updateNode e r st) = frameLoop st"
  "els (updateNode e r st) = els st"
  "elsLength (updateNode e r st) = elsLength st"
  "next_handle (updateNode e r st) = next_handle st"
  by (simp_all add: updateNode_def split: prod.splits)

lemma addLoadListener_fields [simp]:
  "checkType (addLoadListener r st) = checkType st"
  "options (addLoadListener r st) = options st"
  "doc_listener (addLoadListener r st) = doc_listener st"
  "observer (addLoadListener r st) = observer st"
  "pending (addLoadListener r st) = pending st"
  "frameCount (addLoadListener r st) = frameCount st"
  "frameLoop (addLoadListener r st) = frameLoop st"
  "els (addLoadListener r st) = els st"
  "elsLength (addLoadListener r st) = elsLength st"
  "next_handle (addLoadListener r st) = next_handle st"
  by (simp_all add: addLoadListener_def)

lemma removeDataAttrsNode_fields [simp]:
  "checkType (removeDataAttrsNode r st) = checkType st"
  "options (removeDataAttrsNode r st) = options st"
  "doc_listener (removeDataAttrsNode r st) = doc_listener st"
  "observer (removeDataAttrsNode r st) = observer st"
  "pending (removeDataAttrsNode r st) = pending st"
  "frameCount (removeDataAttrsNode r st) = frameCount st"
  "frameLoop (removeDataAttrsNode r st) = frameLoop st"
  "els (removeDataAttrsNode r st) = els st"
  "elsLength (removeDataAttrsNode r st) = elsLength st"
  "next_handle (removeDataAttrsNode r st) = next_handle st"
  "trace (removeDataAttrsNode r st) = trace st"
  by (simp_all add: removeDataAttrsNode_def)

lemma scan_elem_setup: "same_setup st (snd (scan_elem e i st))"
  by (simp add: scan_elem_def same_setup_def Let_def split: option.splits sum.splits prod.splits)

lemma same_setup_trans: "same_setup a b \<Longrightarrow> same_setup b c \<Longrightarrow> same_setup a c"
  by (simp add: same_setup_def)

lemma same_setup_refl [simp]: "same_setup a a"
  by (simp add: same_setup_def)

lemma scan_from_setup: "same_setup st (snd (scan_from e i n st))"
proof (induction e i n st rule: scan_from.induct)
  case (1 e i n st)
  show ?case
  proof (cases "i < n")
    case False
    then show ?thesis by (simp add: scan_from.simps)
  next
    case True
    obtain err st1 where s: "scan_elem e i st = (err, st1)" by (cases "scan_elem e i st")
    have a: "same_setup st st1" using scan_elem_setup [of st e i] s by simp
    show ?thesis
    proof (cases err)
      case None
      with 1 True s have "same_setup st1 (snd (scan_from e (Suc i) n st1))" by simp
      with a have "same_setup st (snd (scan_from e (Suc i) n st1))" by (rule same_setup_trans)
      with True s None show ?thesis by (simp add: scan_from.simps [of e i])
    next
      case (Some x)
      with True s a show ?thesis by (simp add: scan_from.simps [of e i])
    qed
  qed
qed

lemma reschedule_setup: "same_setup st (snd (reschedule e st))"
  by (simp add: reschedule_def same_setup_def Let_def)

lemma really_old_elem_setup: "same_setup st (really_old_elem e st x)"
  by (simp add: really_old_elem_def same_setup_def split: option.splits)

lemma foldl_setup:
  assumes "\<And>s x. same_setup s (f s x)"
  shows "same_setup st (foldl f st xs)"
proof (induction xs arbitrary: st)
  case Nil
  show ?case by simp
next
  case (Cons x xs)
  have "same_setup st (f st x)" by (rule assms)
  moreover have "same_setup (f st x) (foldl f (f st x) xs)" by (rule Cons.IH)
  ultimately show ?case by (simp add: same_setup_def)
qed

lemma observe_elem_setup: "same_setup st (observe_elem st x)"
  by (simp add: observe_elem_def observe_def same_setup_def split: option.splits)

lemma setSrcs_setup: "same_setup st (snd (setSrcs e st))"
proof (cases "checkType st")
  case None
  then show ?thesis by (simp add: setSrcs_def)
next
  case (Some s)
  show ?thesis
  proof (cases s)
    case ReallyOld
    have "same_setup (st\<lparr>elsLength := int (length (els st))\<rparr>)
       (foldl (really_old_elem e) (st\<lparr>elsLength := int (length (els st))\<rparr>) (els st))"
      by (rule foldl_setup) (rule really_old_elem_setup)
    with Some ReallyOld show ?thesis by (simp add: setSrcs_def same_setup_def)
  next
    case Old
    show ?thesis
    proof (cases "frameCount st = maxFrameCount (options st)")
      case False
      with Some Old reschedule_setup [of st e] show ?thesis by (simp add: setSrcs_def)
    next
      case True
      let ?st0 = "st\<lparr>elsLength := int (length (els st))\<rparr>"
      obtain err st1 where s: "scan_from e 0 (length (els st)) ?st0 = (err, st1)"
        by (cases "scan_from e 0 (length (els st)) ?st0")
      have a: "same_setup ?st0 st1" using scan_from_setup [of ?st0 e 0 "length (els st)"] s by simp
      show ?thesis
      proof (cases err)
        case None
        let ?st2 = "st1\<lparr>els := compact_from 0 (nat (elsLength st1)) (els st1),
          elsLength := int (length (compact_from 0 (nat (elsLength st1)) (els st1))), frameCount := - 1\<rparr>"
        have "same_setup ?st2 (snd (reschedule e ?st2))" by (rule reschedule_setup)
        with a Some Old True s None show ?thesis
          by (simp add: setSrcs_def same_setup_def Let_def)
      next
        case (Some x)
        with a \<open>checkType st = Some s\<close> Old True s show ?thesis
          by (simp add: setSrcs_def same_setup_def)
      qed
    qed
  next
    case New
    let ?st0 = "st\<lparr>observer := Some [], elsLength := int (length (els st)),
                   trace := trace st @ [NewIntersectionObserver]\<rparr>"
    have "same_setup ?st0 (foldl observe_elem ?st0 (els st))"
      by (rule foldl_setup) (rule observe_elem_setup)
    with Some New show ?thesis by (simp add: setSrcs_def same_setup_def)
  qed
qed

lemma teardown_setup: "same_setup st (teardown st)"
  by (simp add: teardown_def same_setup_def disconnect_def split: option.splits strategy.splits)

lemma init_setup: "same_setup st (snd (init e st))"
proof -
  let ?a = "htmlCollectionToArray (querySelectorAll e (elements (options (teardown st))))"
  let ?st1 = "(teardown st)\<lparr>els := ?a, elsLength := int (length ?a),
     frameCount := maxFrameCount (options (teardown st))\<rparr>"
  have "same_setup ?st1 (snd (setSrcs e ?st1))" by (rule setSrcs_setup)
  with teardown_setup [of st] show ?thesis by (simp add: init_def same_setup_def Let_def)
qed

lemma intersect_entry_setup: "same_setup st (snd (intersect_entry e en st))"
  by (simp add: intersect_entry_def same_setup_def Let_def split: option.splits)

lemma for_entries_setup: "same_setup st (snd (for_entries e ens st))"
proof (induction ens arbitrary: st)
  case Nil
  show ?case by simp
next
  case (Cons en ens)
  obtain err st1 where s: "intersect_entry e en st = (err, st1)" by (cases "intersect_entry e en st")
  have a: "same_setup st st1" using intersect_entry_setup [of st e en] s by simp
  show ?case
  proof (cases err)
    case None
    with s a Cons.IH [of st1] show ?thesis by (simp add: same_setup_def)
  next
    case (Some x)
    with s a show ?thesis by simp
  qed
qed

lemma intersection_setup: "same_setup st (snd (intersection e ens st))"
proof (cases "elsLength st = 0 \<and> observer st \<noteq> None")
  case True
  then obtain ts where ts: "observer st = Some ts" by auto
  let ?st1 = "st\<lparr>observer := Some [], trace := trace st @ [Disconnect]\<rparr>"
  have "same_setup ?st1 (snd (for_entries e ens ?st1))" by (rule for_entries_setup)
  with True ts show ?thesis by (simp add: intersection_def disconnect_def same_setup_def)
next
  case False
  with for_entries_setup [of st e ens] show ?thesis
    by (auto simp add: intersection_def disconnect_def split: option.splits)
qed

lemma step_setup: "same_setup st (step st x)"
proof (cases x)
  case (Pair e ev)
  show ?thesis
  proof (cases ev)
    case Frame
    show ?thesis
    proof (cases "pending st")
      case Nil
      with Pair Frame show ?thesis by (simp add: step_def)
    next
      case (Cons h hs)
      have "same_setup (st\<lparr>pending := hs\<rparr>) (snd (setSrcs e (st\<lparr>pending := hs\<rparr>)))"
        by (rule setSrcs_setup)
      with Pair Frame Cons show ?thesis by (simp add: step_def same_setup_def)
    qed
  next
    case (Load r)
    with Pair show ?thesis by (simp add: step_def same_setup_def)
  next
    case (Intersect ens)
    with Pair intersection_setup [of st e ens] show ?thesis by (simp add: step_def)
  next
    case (PageUpdated n)
    with Pair init_setup [of st e] show ?thesis by (simp add: step_def)
  qed
qed

lemma run_setup: "same_setup st (run xs st)"
  unfolding run_def by (rule foldl_setup) (rule step_setup)

lemma lazyLoad_checkType: "checkType (snd (lazyLoad e ov ns)) = Some (detect e)"
proof -
  let ?st0 = "(initial ns)\<lparr>options := merge_options ov, checkType := Some (detect e)\<rparr>"
  obtain err st1 where s: "init e ?st0 = (err, st1)" by (cases "init e ?st0")
  have "same_setup ?st0 st1" using init_setup [of ?st0 e] s by simp
  with s show ?thesis
    by (cases err) (simp_all add: lazyLoad_def same_setup_def Let_def)
qed

subsection \<open>The \<^verbatim>\<open>really-old\<close> strategy\<close>

lemma updates_append [simp]: "updates (a @ b) = updates a @ updates b"
  by (induction a rule: updates.induct) simp_all

lemma updateElement_src:
  "src (fst (updateElement e el)) =
     (if present (attrs el ''data-src'') then attrs el ''data-src'' else src el)"
  by (simp add: updateElement_def Let_def removeDataAttrs_def)

lemma updateElement_srcset:
  "attrs (fst (updateElement e el)) ''srcset'' =
     (if present (attrs el ''data-srcset'') then attrs el ''data-srcset'' else attrs el ''srcset'')"
  by (simp add: updateElement_def Let_def removeDataAttrs_def)

lemma updateElement_deferred:
  "k = ''data-src'' \<or> k = ''data-srcset'' \<or> k = ''data-lazyload'' \<Longrightarrow>
   attrs (fst (updateElement e el)) k =
     (if attrs el ''data-lazyload'' \<noteq> None then None else attrs el k)"
  by (auto simp add: updateElement_def Let_def removeDataAttrs_def)

lemma updateElement_listener:
  "load_listener (fst (updateElement e el)) =
     (if attrs el ''data-lazyload'' \<noteq> None then False else load_listener el)"
  by (simp add: updateElement_def Let_def removeDataAttrs_def)

lemma updateElement_fixed [simp]:
  "lazyloaded (fst (updateElement e el)) = lazyloaded el"
  "tagName (fst (updateElement e el)) = tagName el"
  "parentNode (fst (updateElement e el)) = parentNode el"
  by (simp_all add: updateElement_def Let_def removeDataAttrs_def)

lemma removeDataAttrs_simps [simp]:
  "attrs (removeDataAttrs el) ''data-src'' = None"
  "attrs (removeDataAttrs el) ''data-srcset'' = None"
  "attrs (removeDataAttrs el) ''data-lazyload'' = None"
  "attrs (removeDataAttrs el) ''srcset'' = attrs el ''srcset''"
  "src (removeDataAttrs el) = src el"
  "lazyloaded (removeDataAttrs el) = lazyloaded el"
  "load_listener (removeDataAttrs el) = load_listener el"
  "tagName (removeDataAttrs el) = tagName el"
  "parentNode (removeDataAttrs el) = parentNode el"
  by (simp_all add: removeDataAttrs_def)

lemma nodes_updateNode:
  "nodes (updateNode e r st) = (nodes st)(r := fst (updateElement e (nodes st r)))"
  by (simp add: updateNode_def split: prod.splits)

lemma trace_updateNode:
  "trace (updateNode e r st) =
     trace st @ UpdateElement r # (if snd (updateElement e (nodes st r)) then [Picturefill r] else [])"
  by (simp add: updateNode_def split: prod.splits)

lemma copy_down_eq:
  assumes "i \<le> length c"
    and "(a = [] \<and> i = length c) \<or>
         (length a = length c \<and> (\<forall>j. i \<le> j \<and> j < length c \<longrightarrow> a ! j = Some (c ! j)))"
  shows "copy_down c i a = map Some c"
  using assms
proof (induction i arbitrary: a)
  case 0
  then show ?case by (auto intro: nth_equalityI)
next
  case (Suc i)
  let ?v = "js_index (map Some c) i"
  from Suc.prems have v: "?v = Some (c ! i)" by (simp add: js_index_def)
  have "length (js_store a i ?v) = length c \<and>
        (\<forall>j. i \<le> j \<and> j < length c \<longrightarrow> js_store a i ?v ! j = Some (c ! j))"
  proof (cases "a = []")
    case True
    with Suc.prems have n: "Suc i = length c" by auto
    have eq: "js_store a i ?v = replicate i None @ [Some (c ! i)]"
      using True v by (simp add: js_store_def)
    show ?thesis
    proof (intro conjI allI impI)
      show "length (js_store a i ?v) = length c"
        using eq n by simp
    next
      fix j assume "i \<le> j \<and> j < length c"
      with n have "j = i" by arith
      with eq show "js_store a i ?v ! j = Some (c ! j)"
        by (simp add: nth_append)
    qed
  next
    case False
    with Suc.prems have l: "length a = length c"
      and h: "\<forall>j. Suc i \<le> j \<and> j < length c \<longrightarrow> a ! j = Some (c ! j)" by auto
    from l Suc.prems have eq: "js_store a i ?v = a[i := Some (c ! i)]"
      using v by (simp add: js_store_def)
    show ?thesis
    proof (intro conjI allI impI)
      show "length (js_store a i ?v) = length c"
        using eq l by simp
    next
      fix j assume j: "i \<le> j \<and> j < length c"
      show "js_store a i ?v ! j = Some (c ! j)"
      proof (cases "j = i")
        case True
        with eq l j show ?thesis by simp
      next
        case False
        with j have "Suc i \<le> j \<and> j < length c" by arith
        with h have "a ! j = Some (c ! j)" by blast
        with eq False show ?thesis by simp
      qed
    qed
  qed
  with Suc.prems Suc.IH [of "js_store a i ?v"] show ?case by simp
qed

lemma htmlCollectionToArray_eq: "htmlCollectionToArray c = map Some c"
  unfolding htmlCollectionToArray_def by (rule copy_down_eq) simp_all

lemma removeDataAttrs_idle: "no_deferred el \<Longrightarrow> removeDataAttrs el = el"
  by (simp add: no_deferred_def removeDataAttrs_def fun_upd_idem)

lemma updateElement_idle: "no_deferred el \<Longrightarrow> updateElement e el = (el, False)"
  by (simp add: no_deferred_def updateElement_def present_def)

lemma really_old_elem_nodes:
  "nodes (really_old_elem e st (Some r)) =
     (nodes st)(r := removeDataAttrs (fst (updateElement e (nodes st r))))"
  by (simp add: really_old_elem_def removeDataAttrsNode_def nodes_updateNode)

lemma really_old_elem_other: "x \<noteq> Some r \<Longrightarrow> nodes (really_old_elem e st x) r = nodes st r"
proof (cases x)
  case None
  then show ?thesis by (simp add: really_old_elem_def)
next
  case (Some r')
  assume "x \<noteq> Some r"
  with Some show ?thesis by (simp add: really_old_elem_nodes)
qed

lemma really_old_elem_idle:
  "no_deferred (nodes st r) \<Longrightarrow> nodes (really_old_elem e st x) r = nodes st r"
proof (cases "x = Some r")
  case False
  then show ?thesis by (rule really_old_elem_other)
next
  case True
  assume "no_deferred (nodes st r)"
  with True show ?thesis
    by (simp add: really_old_elem_nodes updateElement_idle removeDataAttrs_idle)
qed

lemma really_old_fold_idle:
  "no_deferred (nodes st r) \<Longrightarrow> nodes (foldl (really_old_elem e) st xs) r = nodes st r"
  by (induction xs arbitrary: st) (simp_all add: really_old_elem_idle)

lemma really_old_elem_self:
  "no_deferred (nodes (really_old_elem e st (Some r)) r)
   \<and> (present (attrs (nodes st r) ''data-src'') \<longrightarrow>
        src (nodes (really_old_elem e st (Some r)) r) = attrs (nodes st r) ''data-src'')
   \<and> (present (attrs (nodes st r) ''data-srcset'') \<longrightarrow>
        attrs (nodes (really_old_elem e st (Some r)) r) ''srcset'' = attrs (nodes st r) ''data-srcset'')"
  by (simp add: really_old_elem_nodes no_deferred_def updateElement_src updateElement_srcset)

lemma really_old_fold_activates:
  "r \<in> set c \<Longrightarrow> activated (nodes st) (foldl (really_old_elem e) st (map Some c)) r"
proof (induction c arbitrary: st)
  case Nil
  then show ?case by simp
next
  case (Cons x xs)
  let ?st1 = "really_old_elem e st (Some x)"
  show ?case
  proof (cases "x = r")
    case True
    have nd: "no_deferred (nodes ?st1 r)" using really_old_elem_self [of e st r] True by simp
    then have "nodes (foldl (really_old_elem e) ?st1 (map Some xs)) r = nodes ?st1 r"
      by (rule really_old_fold_idle)
    with really_old_elem_self [of e st r] True show ?thesis by (simp add: activated_def)
  next
    case False
    with Cons.prems have "r \<in> set xs" by simp
    then have "activated (nodes ?st1) (foldl (really_old_elem e) ?st1 (map Some xs)) r"
      by (rule Cons.IH)
    moreover from False have "nodes ?st1 r = nodes st r"
      by (simp add: really_old_elem_other)
    ultimately show ?thesis by (simp add: activated_def)
  qed
qed

lemma really_old_elem_fields [simp]:
  "pending (really_old_elem e st x) = pending st"
  "observer (really_old_elem e st x) = observer st"
  "next_handle (really_old_elem e st x) = next_handle st"
  "frameLoop (really_old_elem e st x) = frameLoop st"
  by (simp_all add: really_old_elem_def split: option.splits)

lemma really_old_fold_fields:
  "pending (foldl (really_old_elem e) st xs) = pending st
   \<and> observer (foldl (really_old_elem e) st xs) = observer st
   \<and> next_handle (foldl (really_old_elem e) st xs) = next_handle st"
  by (induction xs arbitrary: st) simp_all

lemma really_old_fold_updates:
  "updates (trace (foldl (really_old_elem e) st (map Some c))) = updates (trace st) @ c"
  by (induction c arbitrary: st)
    (simp_all add: really_old_elem_def trace_updateNode)

lemma init_really_old:
  assumes "checkType st = Some ReallyOld"
  shows "init e st = (None,
    (foldl (really_old_elem e)
       (st\<lparr>els := map Some (querySelectorAll e (elements (options st))),
           elsLength := int (length (querySelectorAll e (elements (options st)))),
           frameCount := maxFrameCount (options st)\<rparr>)
       (map Some (querySelectorAll e (elements (options st)))))\<lparr>els := []\<rparr>)"
  using assms by (cases st) (simp add: init_def teardown_def setSrcs_def htmlCollectionToArray_eq Let_def)

text \<open>
  Claim C4. In an environment for which the detector answers \<^verbatim>\<open>'really-old'\<close>, the call
  of \<^verbatim>\<open>lazyLoad\<close> returns without an exception, after the updater has been called on
  every element the selector matched, once each and in document order, whether or not
  the element is in the viewport. When it returns, none of these elements has a deferred
  attribute left, each that had a non-empty \<^verbatim>\<open>data-src\<close> (\<^verbatim>\<open>data-srcset\<close>) has it as
  its \<^verbatim>\<open>src\<close> (\<^verbatim>\<open>srcset\<close>), the working set is empty, no animation-frame callback is
  pending and there is no observer. (The updater's test \<^verbatim>\<open>if (src)\<close> takes an empty
  string for no value: an empty \<^verbatim>\<open>data-src\<close> is removed without being copied.)
\<close>

theorem really_old_activates_all:
  assumes "detect e = ReallyOld"
  shows "fst (lazyLoad e ov ns) = None
    \<and> els (snd (lazyLoad e ov ns)) = []
    \<and> pending (snd (lazyLoad e ov ns)) = []
    \<and> observer (snd (lazyLoad e ov ns)) = None
    \<and> updates (trace (snd (lazyLoad e ov ns))) = querySelectorAll e (elements (merge_options ov))
    \<and> (\<forall>r \<in> set (querySelectorAll e (elements (merge_options ov))).
          activated ns (snd (lazyLoad e ov ns)) r)"
proof -
  let ?c = "querySelectorAll e (elements (merge_options ov))"
  let ?st0 = "(initial ns)\<lparr>options := merge_options ov, checkType := Some ReallyOld\<rparr>"
  let ?st1 = "?st0\<lparr>els := map Some ?c, elsLength := int (length ?c),
                  frameCount := maxFrameCount (merge_options ov)\<rparr>"
  let ?st2 = "(foldl (really_old_elem e) ?st1 (map Some ?c))\<lparr>els := []\<rparr>"
  have i: "init e ?st0 = (None, ?st2)"
    using init_really_old [of ?st0 e] by simp
  have l: "lazyLoad e ov ns = (None,
      if present (pageUpdatedEventName (options ?st2))
      then ?st2\<lparr>doc_listener := pageUpdatedEventName (options ?st2)\<rparr> else ?st2)"
    using assms i by (simp add: lazyLoad_def Let_def)
  have f: "pending ?st2 = [] \<and> observer ?st2 = None"
    using really_old_fold_fields [of e ?st1 "map Some ?c"] by (simp add: initial_def)
  have u: "updates (trace ?st2) = ?c"
    using really_old_fold_updates [of e ?st1 ?c] by (simp add: initial_def)
  have a: "\<forall>r \<in> set ?c. activated ns ?st2 r"
  proof
    fix r assume "r \<in> set ?c"
    then have "activated (nodes ?st1) (foldl (really_old_elem e) ?st1 (map Some ?c)) r"
      by (rule really_old_fold_activates)
    then show "activated ns ?st2 r" by (simp add: activated_def initial_def)
  qed
  from l f u a show ?thesis by (simp add: activated_def)
qed

theorem really_old_activates_all_witness:
  "detect (ancient [0, 1, 2, 3, 4]) = ReallyOld
    \<and> fst (lazyLoad (ancient [0, 1, 2, 3, 4]) no_overrides page) = None
    \<and> els (snd (lazyLoad (ancient [0, 1, 2, 3, 4]) no_overrides page)) = []
    \<and> pending (snd (lazyLoad (ancient [0, 1, 2, 3, 4]) no_overrides page)) = []
    \<and> updates (trace (snd (lazyLoad (ancient [0, 1, 2, 3, 4]) no_overrides page))) = [0, 1, 2, 3, 4]
    \<and> src (nodes (snd (lazyLoad (ancient [0, 1, 2, 3, 4]) no_overrides page)) 4) = Some ''a.png''
    \<and> attrs (nodes (snd (lazyLoad (ancient [0, 1, 2, 3, 4]) no_overrides page)) 4) ''data-src'' = None"
proof -
  have d: "detect (ancient [0, 1, 2, 3, 4]) = ReallyOld"
    by (simp add: detect_def ancient_def)
  have q: "querySelectorAll (ancient [0, 1, 2, 3, 4]) (elements (merge_options no_overrides)) = [0, 1, 2, 3, 4]"
    by (simp add: ancient_def browser_def)
  have p: "attrs (page 4) ''data-src'' = Some ''a.png''"
    by (simp add: page_def)
  from really_old_activates_all [OF d, of no_overrides page] q
  have "activated page (snd (lazyLoad (ancient [0, 1, 2, 3, 4]) no_overrides page)) 4"
    and "fst (lazyLoad (ancient [0, 1, 2, 3, 4]) no_overrides page) = None
      \<and> els (snd (lazyLoad (ancient [0, 1, 2, 3, 4]) no_overrides page)) = []
      \<and> pending (snd (lazyLoad (ancient [0, 1, 2, 3, 4]) no_overrides page)) = []
      \<and> updates (trace (snd (lazyLoad (ancient [0, 1, 2, 3, 4]) no_overrides page))) = [0, 1, 2, 3, 4]"
    by simp_all
  with d p show ?thesis
    by (simp add: activated_def no_deferred_def present_def)
qed

subsection \<open>A selector that matches nothing\<close>






subsection \<open>The observer's callback\<close>

lemma unobserves_append [simp]: "unobserves (a @ b) = unobserves a @ unobserves b"
  by (induction a rule: unobserves.induct) simp_all

lemma intersect_entry_zero:
  "\<not> 0 < intersectionRatio en \<Longrightarrow> intersect_entry e en st = (None, st)"
  by (simp add: intersect_entry_def)

lemma intersect_entry_pos:
  assumes "0 < intersectionRatio en" and "observer st = Some ts"
  shows "fst (intersect_entry e en st) = None
    \<and> observer (snd (intersect_entry e en st)) = Some (removeAll (target en) ts)
    \<and> elsLength (snd (intersect_entry e en st)) = elsLength st - 1
    \<and> updates (trace (snd (intersect_entry e en st))) = updates (trace st) @ [target en]
    \<and> unobserves (trace (snd (intersect_entry e en st))) = unobserves (trace st) @ [target en]
    \<and> (\<forall>r. r \<noteq> target en \<longrightarrow> nodes (snd (intersect_entry e en st)) r = nodes st r)"
  using assms
  by (simp add: intersect_entry_def Let_def trace_updateNode nodes_updateNode addLoadListener_def)

lemma for_entries_batch:
  assumes "observer st = Some ts"
  shows "fst (for_entries e ens st) = None
    \<and> (\<exists>ts'. observer (snd (for_entries e ens st)) = Some ts' \<and> set ts' = set ts - set (positive ens))
    \<and> elsLength (snd (for_entries e ens st)) = elsLength st - int (length (positive ens))
    \<and> updates (trace (snd (for_entries e ens st))) = updates (trace st) @ positive ens
    \<and> unobserves (trace (snd (for_entries e ens st))) = unobserves (trace st) @ positive ens
    \<and> (\<forall>r. r \<notin> set (positive ens) \<longrightarrow> nodes (snd (for_entries e ens st)) r = nodes st r)"
  using assms
proof (induction ens arbitrary: st ts)
  case Nil
  then show ?case by (simp add: positive_def)
next
  case (Cons en ens)
  show ?case
  proof (cases "0 < intersectionRatio en")
    case False
    then have z: "intersect_entry e en st = (None, st)" by (rule intersect_entry_zero)
    from False have p: "positive (en # ens) = positive ens" by (simp add: positive_def)
    from Cons.IH [OF Cons.prems] z p show ?thesis by simp
  next
    case True
    obtain err st1 where s: "intersect_entry e en st = (err, st1)"
      by (cases "intersect_entry e en st")
    from intersect_entry_pos [OF True Cons.prems, of e] s
    have err: "err = None" and o: "observer st1 = Some (removeAll (target en) ts)"
      and l: "elsLength st1 = elsLength st - 1"
      and u: "updates (trace st1) = updates (trace st) @ [target en]"
      and v: "unobserves (trace st1) = unobserves (trace st) @ [target en]"
      and n: "\<forall>r. r \<noteq> target en \<longrightarrow> nodes st1 r = nodes st r"
      by simp_all
    from True have p: "positive (en # ens) = target en # positive ens" by (simp add: positive_def)
    from Cons.IH [OF o] obtain ts' where
      a: "fst (for_entries e ens st1) = None"
      and b: "observer (snd (for_entries e ens st1)) = Some ts'"
      and c: "set ts' = set (removeAll (target en) ts) - set (positive ens)"
      and d: "elsLength (snd (for_entries e ens st1)) = elsLength st1 - int (length (positive ens))"
      and f: "updates (trace (snd (for_entries e ens st1))) = updates (trace st1) @ positive ens"
      and g: "unobserves (trace (snd (for_entries e ens st1))) = unobserves (trace st1) @ positive ens"
      and h: "\<forall>r. r \<notin> set (positive ens) \<longrightarrow> nodes (snd (for_entries e ens st1)) r = nodes st1 r"
      by blast
    have fe: "for_entries e (en # ens) st = for_entries e ens st1"
      using s err by simp
    from c have c': "set ts' = set ts - set (positive (en # ens))"
      using p by auto
    show ?thesis
      unfolding fe using a b c' d f g h l u v n p by auto
  qed
qed

text \<open>
  Claim C5. Whenever the observer exists, the callback returns without an exception, and
  for every batch: the updater is called exactly on the targets of the entries with a
  positive ratio, once per such entry and in batch order; \<^verbatim>\<open>unobserve\<close> is called on
  the same targets in the same order, none of which is a target of the observer
  afterwards; \<^verbatim>\<open>elsLength\<close> drops by the number of such entries; a node that is the
  target of no entry with a positive ratio is left as it was; and an entry whose ratio is
  \<open>0\<close> changes nothing at all. (A batch that names a target in two entries with a
  positive ratio activates it once for each.)
\<close>

theorem intersection_activates_positive_entries:
  assumes "observer st \<noteq> None"
  shows "fst (intersection e ens st) = None
    \<and> updates (trace (snd (intersection e ens st))) = updates (trace st) @ positive ens
    \<and> unobserves (trace (snd (intersection e ens st))) = unobserves (trace st) @ positive ens
    \<and> elsLength (snd (intersection e ens st)) = elsLength st - int (length (positive ens))
    \<and> (\<exists>ts. observer (snd (intersection e ens st)) = Some ts \<and> set ts \<inter> set (positive ens) = {})
    \<and> (\<forall>r. r \<notin> set (positive ens) \<longrightarrow> nodes (snd (intersection e ens st)) r = nodes st r)
    \<and> (\<forall>en s. intersectionRatio en = 0 \<longrightarrow> intersect_entry e en s = (None, s))"
proof -
  from assms obtain ts where ts: "observer st = Some ts" by auto
  let ?st1 = "if elsLength st = 0 then st\<lparr>observer := Some [], trace := trace st @ [Disconnect]\<rparr> else st"
  let ?ts1 = "if elsLength st = 0 then [] else ts"
  have i: "intersection e ens st = for_entries e ens ?st1"
    using ts by (simp add: intersection_def disconnect_def)
  have o: "observer ?st1 = Some ?ts1" using ts by simp
  from for_entries_batch [OF o, of e ens] obtain ts' where
    a: "fst (for_entries e ens ?st1) = None"
    and b: "observer (snd (for_entries e ens ?st1)) = Some ts'"
    and c: "set ts' = set ?ts1 - set (positive ens)"
    and d: "elsLength (snd (for_entries e ens ?st1)) = elsLength ?st1 - int (length (positive ens))"
    and f: "updates (trace (snd (for_entries e ens ?st1))) = updates (trace ?st1) @ positive ens"
    and g: "unobserves (trace (snd (for_entries e ens ?st1))) = unobserves (trace ?st1) @ positive ens"
    and h: "\<forall>r. r \<notin> set (positive ens) \<longrightarrow> nodes (snd (for_entries e ens ?st1)) r = nodes ?st1 r"
    by blast
  from c have c': "set ts' \<inter> set (positive ens) = {}" by auto
  have z: "\<forall>en s. intersectionRatio en = 0 \<longrightarrow> intersect_entry e en s = (None, s)"
    by (simp add: intersect_entry_zero)
  show ?thesis
    unfolding i using a b c' d f g h z by (simp split: if_splits)
qed

theorem intersection_activates_positive_entries_witness:
  "observer observing \<noteq> None
    \<and> fst (intersection (browser Function True [0, 1]) batch observing) = None
    \<and> updates (trace (snd (intersection (browser Function True [0, 1]) batch observing))) = [1]
    \<and> unobserves (trace (snd (intersection (browser Function True [0, 1]) batch observing))) = [1]
    \<and> nodes (snd (intersection (browser Function True [0, 1]) batch observing)) 0 = nodes observing 0
    \<and> src (nodes (snd (intersection (browser Function True [0, 1]) batch observing)) 1) = Some ''a.png''
    \<and> observer (snd (intersection (browser Function True [0, 1]) batch observing)) = Some [0]"
proof -
  have h: "observer observing \<noteq> None"
    unfolding observing_def by code_simp
  have p: "positive batch = [1]"
    by (simp add: positive_def batch_def)
  have u: "updates (trace observing) = []" "unobserves (trace observing) = []"
    unfolding observing_def by code_simp+
  have s: "src (nodes (snd (intersection (browser Function True [0, 1]) batch observing)) 1) = Some ''a.png''"
    "observer (snd (intersection (browser Function True [0, 1]) batch observing)) = Some [0]"
    unfolding observing_def batch_def by code_simp+
  from intersection_activates_positive_entries [OF h, of "browser Function True [0, 1]" batch] p u
  have "fst (intersection (browser Function True [0, 1]) batch observing) = None"
    and "updates (trace (snd (intersection (browser Function True [0, 1]) batch observing))) = [1]"
    and "unobserves (trace (snd (intersection (browser Function True [0, 1]) batch observing))) = [1]"
    and "nodes (snd (intersection (browser Function True [0, 1]) batch observing)) 0 = nodes observing 0"
    by simp_all
  with h s show ?thesis by simp
qed

subsection \<open>Tools for the loops\<close>

lemma rects_append [simp]: "rects (a @ b) = rects a @ rects b"
  by (induction a rule: rects.induct) simp_all

lemma scan_from_rel:
  assumes refl: "\<And>s. R s s"
    and trans: "\<And>a b c. R a b \<Longrightarrow> R b c \<Longrightarrow> R a c"
    and elem: "\<And>i s. R s (snd (scan_elem e i s))"
  shows "R st (snd (scan_from e i n st))"
  using elem
proof (induction e i n st rule: scan_from.induct)
  case (1 e i n st)
  show ?case
  proof (cases "i < n")
    case False
    then show ?thesis by (simp add: scan_from.simps refl)
  next
    case True
    obtain err st1 where s: "scan_elem e i st = (err, st1)" by (cases "scan_elem e i st")
    have a: "R st st1" using "1.prems" [of st i] s by simp
    show ?thesis
    proof (cases err)
      case None
      with "1.IH" [OF True s [symmetric] _ "1.prems"] have "R st1 (snd (scan_from e (Suc i) n st1))"
        by simp
      with a have "R st (snd (scan_from e (Suc i) n st1))" by (rule trans)
      with True s None show ?thesis by (simp add: scan_from.simps [of e i])
    next
      case (Some x)
      with True s a show ?thesis by (simp add: scan_from.simps [of e i])
    qed
  qed
qed

lemma setSrcs_old_cases:
  assumes "checkType st = Some Old"
  obtains (idle) "frameCount st \<noteq> maxFrameCount (options st)"
      and "setSrcs e st = reschedule e st"
    | (threw) err st1 where "frameCount st = maxFrameCount (options st)"
      and "scan_from e 0 (length (els st)) (st\<lparr>elsLength := int (length (els st))\<rparr>) = (Some err, st1)"
      and "setSrcs e st = (Some err, st1)"
    | (scanned) st1 where "frameCount st = maxFrameCount (options st)"
      and "scan_from e 0 (length (els st)) (st\<lparr>elsLength := int (length (els st))\<rparr>) = (None, st1)"
      and "setSrcs e st =
        reschedule e (st1\<lparr>els := compact_from 0 (nat (elsLength st1)) (els st1),
          elsLength := int (length (compact_from 0 (nat (elsLength st1)) (els st1))),
          frameCount := - 1\<rparr>)"
proof (cases "frameCount st = maxFrameCount (options st)")
  case False
  with assms have "setSrcs e st = reschedule e st" by (simp add: setSrcs_def)
  with False show ?thesis by (rule idle)
next
  case True
  obtain err st1 where
    s: "scan_from e 0 (length (els st)) (st\<lparr>elsLength := int (length (els st))\<rparr>) = (err, st1)"
    by (cases "scan_from e 0 (length (els st)) (st\<lparr>elsLength := int (length (els st))\<rparr>)")
  show ?thesis
  proof (cases err)
    case None
    with assms True s have "setSrcs e st =
        reschedule e (st1\<lparr>els := compact_from 0 (nat (elsLength st1)) (els st1),
          elsLength := int (length (compact_from 0 (nat (elsLength st1)) (els st1))),
          frameCount := - 1\<rparr>)"
      by (simp add: setSrcs_def Let_def)
    with True s None show ?thesis using scanned by blast
  next
    case (Some x)
    with assms True s have "setSrcs e st = (Some x, st1)" by (simp add: setSrcs_def)
    with True s Some show ?thesis using threw by blast
  qed
qed

lemma foldl_rel:
  assumes refl: "\<And>s. R s s"
    and trans: "\<And>a b c. R a b \<Longrightarrow> R b c \<Longrightarrow> R a c"
    and elem: "\<And>s x. R s (f s x)"
  shows "R st (foldl f st xs)"
proof (induction xs arbitrary: st)
  case Nil
  show ?case by (simp add: refl)
next
  case (Cons x xs)
  have "R st (f st x)" by (rule elem)
  moreover have "R (f st x) (foldl f (f st x) xs)" by (rule Cons.IH)
  ultimately show ?case by (simp add: trans [of st "f st x"])
qed

lemma for_entries_rel:
  assumes refl: "\<And>s. R s s"
    and trans: "\<And>a b c. R a b \<Longrightarrow> R b c \<Longrightarrow> R a c"
    and elem: "\<And>en s. R s (snd (intersect_entry e en s))"
  shows "R st (snd (for_entries e ens st))"
proof (induction ens arbitrary: st)
  case Nil
  show ?case by (simp add: refl)
next
  case (Cons en ens)
  obtain err st1 where s: "intersect_entry e en st = (err, st1)" by (cases "intersect_entry e en st")
  have a: "R st st1" using elem [of st en] s by simp
  show ?case
  proof (cases err)
    case None
    from a Cons.IH [of st1] have "R st (snd (for_entries e ens st1))" by (rule trans)
    with s None show ?thesis by simp
  next
    case (Some x)
    with s a show ?thesis by simp
  qed
qed

lemma lazyLoad_fields:
  "fst (lazyLoad e ov ns) = fst (init e (configured e ov ns))"
  "pending (snd (lazyLoad e ov ns)) = pending (snd (init e (configured e ov ns)))"
  "frameLoop (snd (lazyLoad e ov ns)) = frameLoop (snd (init e (configured e ov ns)))"
  "frameCount (snd (lazyLoad e ov ns)) = frameCount (snd (init e (configured e ov ns)))"
  "checkType (snd (lazyLoad e ov ns)) = checkType (snd (init e (configured e ov ns)))"
  "options (snd (lazyLoad e ov ns)) = options (snd (init e (configured e ov ns)))"
  "nodes (snd (lazyLoad e ov ns)) = nodes (snd (init e (configured e ov ns)))"
  "trace (snd (lazyLoad e ov ns)) = trace (snd (init e (configured e ov ns)))"
  "observer (snd (lazyLoad e ov ns)) = observer (snd (init e (configured e ov ns)))"
  "els (snd (lazyLoad e ov ns)) = els (snd (init e (configured e ov ns)))"
  "elsLength (snd (lazyLoad e ov ns)) = elsLength (snd (init e (configured e ov ns)))"
  "next_handle (snd (lazyLoad e ov ns)) = next_handle (snd (init e (configured e ov ns)))"
proof -
  obtain err st1 where s: "init e (configured e ov ns) = (err, st1)"
    by (cases "init e (configured e ov ns)")
  then have l: "lazyLoad e ov ns = (err, st1)
      \<or> lazyLoad e ov ns = (err, st1\<lparr>doc_listener := pageUpdatedEventName (options st1)\<rparr>)"
    by (cases err) (simp_all add: lazyLoad_def configured_def Let_def)
  from l s show "fst (lazyLoad e ov ns) = fst (init e (configured e ov ns))" by auto
  from l s show "pending (snd (lazyLoad e ov ns)) = pending (snd (init e (configured e ov ns)))" by auto
  from l s show "frameLoop (snd (lazyLoad e ov ns)) = frameLoop (snd (init e (configured e ov ns)))" by auto
  from l s show "frameCount (snd (lazyLoad e ov ns)) = frameCount (snd (init e (configured e ov ns)))" by auto
  from l s show "checkType (snd (lazyLoad e ov ns)) = checkType (snd (init e (configured e ov ns)))" by auto
  from l s show "options (snd (lazyLoad e ov ns)) = options (snd (init e (configured e ov ns)))" by auto
  from l s show "nodes (snd (lazyLoad e ov ns)) = nodes (snd (init e (configured e ov ns)))" by auto
  from l s show "trace (snd (lazyLoad e ov ns)) = trace (snd (init e (configured e ov ns)))" by auto
  from l s show "observer (snd (lazyLoad e ov ns)) = observer (snd (init e (configured e ov ns)))" by auto
  from l s show "els (snd (lazyLoad e ov ns)) = els (snd (init e (configured e ov ns)))" by auto
  from l s show "elsLength (snd (lazyLoad e ov ns)) = elsLength (snd (init e (configured e ov ns)))" by auto
  from l s show "next_handle (snd (lazyLoad e ov ns)) = next_handle (snd (init e (configured e ov ns)))" by auto
qed

lemma configured_fields [simp]:
  "checkType (configured e ov ns) = Some (detect e)"
  "options (configured e ov ns) = merge_options ov"
  "pending (configured e ov ns) = []"
  "observer (configured e ov ns) = None"
  "trace (configured e ov ns) = []"
  "nodes (configured e ov ns) = ns"
  "frameLoop (configured e ov ns) = None"
  "next_handle (configured e ov ns) = 0"
  by (simp_all add: configured_def initial_def)

subsection \<open>The polling strategy: when it scans\<close>

lemma scan_elem_schedule: "same_schedule st (snd (scan_elem e i st))"
  by (simp add: scan_elem_def same_schedule_def Let_def split: option.splits sum.splits prod.splits)

lemma scan_from_schedule: "same_schedule st (snd (scan_from e i n st))"
  by (rule scan_from_rel) (simp_all add: same_schedule_def scan_elem_schedule [unfolded same_schedule_def])

text \<open>After a call of \<^verbatim>\<open>_setSrcs\<close> that scanned, the counter is at most \<open>0\<close>, or no
  callback is pending.\<close>

lemma after_scan:
  assumes old: "checkType st = Some Old"
    and at: "frameCount st = maxFrameCount (options st)"
    and np: "pending st = []"
  shows "checkType (snd (setSrcs e st)) = Some Old
    \<and> options (snd (setSrcs e st)) = options st
    \<and> (pending (snd (setSrcs e st)) = [] \<or> frameCount (snd (setSrcs e st)) \<le> 0)
    \<and> one_loop (snd (setSrcs e st))"
proof -
  let ?st0 = "st\<lparr>elsLength := int (length (els st))\<rparr>"
  have su: "same_setup st (snd (setSrcs e st))" by (rule setSrcs_setup)
  from old show ?thesis
  proof (cases rule: setSrcs_old_cases [where e = e])
    case idle
    with at show ?thesis by simp
  next
    case (threw err st1)
    from scan_from_schedule [of ?st0 e 0 "length (els st)"] threw(2)
    have "pending st1 = []" using np by (simp add: same_schedule_def)
    with threw(3) su old show ?thesis by (simp add: same_setup_def one_loop_def)
  next
    case (scanned st1)
    from scan_from_schedule [of ?st0 e 0 "length (els st)"] scanned(2)
    have "pending st1 = []" using np by (simp add: same_schedule_def)
    with scanned(3) su old show ?thesis
      by (simp add: same_setup_def reschedule_def Let_def one_loop_def)
  qed
qed

lemma quiet_frame:
  assumes old: "checkType st = Some Old"
    and q: "pending st = [] \<or> frameCount st \<le> j"
    and j: "j < maxFrameCount (options st)"
  shows "checkType (step st (e, Frame)) = Some Old
    \<and> options (step st (e, Frame)) = options st
    \<and> (pending (step st (e, Frame)) = [] \<or> frameCount (step st (e, Frame)) \<le> j + 1)
    \<and> rects (trace (step st (e, Frame))) = rects (trace st)"
proof (cases "pending st")
  case Nil
  with old show ?thesis by (simp add: step_def)
next
  case (Cons h hs)
  let ?st0 = "st\<lparr>pending := hs\<rparr>"
  from Cons q j have ne: "frameCount ?st0 \<noteq> maxFrameCount (options ?st0)" by simp
  from old have "checkType ?st0 = Some Old" by simp
  then have "setSrcs e ?st0 = reschedule e ?st0"
    using ne by (cases rule: setSrcs_old_cases [where e = e]) simp_all
  with Cons q old show ?thesis
    by (simp add: step_def reschedule_def Let_def)
qed

lemma quiet_frames:
  assumes "checkType st = Some Old"
    and "pending st = [] \<or> frameCount st \<le> j"
    and "j + int (length es) \<le> maxFrameCount (options st)"
  shows "checkType (frames es st) = Some Old
    \<and> options (frames es st) = options st
    \<and> (pending (frames es st) = [] \<or> frameCount (frames es st) \<le> j + int (length es))
    \<and> rects (trace (frames es st)) = rects (trace st)"
  using assms
proof (induction es arbitrary: st j)
  case Nil
  then show ?case by (simp add: frames_def run_def)
next
  case (Cons e es)
  from Cons.prems have j: "j < maxFrameCount (options st)" by simp
  note f = quiet_frame [OF Cons.prems(1) Cons.prems(2) j, of e]
  have u: "frames (e # es) st = frames es (step st (e, Frame))"
    by (simp add: frames_def run_def)
  from f Cons.prems(3) have "j + 1 + int (length es) \<le> maxFrameCount (options (step st (e, Frame)))"
    by simp
  with f Cons.IH [of "step st (e, Frame)" "j + 1"]
  show ?case unfolding u by (simp add: algebra_simps)
qed

lemma quiet_after:
  assumes "checkType s1 = Some Old"
    and "pending s1 = [] \<or> frameCount s1 \<le> 0"
  shows "(int (length es) < maxFrameCount (options s1) \<longrightarrow> \<not> scans (frames es s1))
    \<and> (int (length es) \<le> maxFrameCount (options s1) \<longrightarrow>
          rects (trace (frames es s1)) = rects (trace s1))"
proof (intro conjI impI)
  assume l: "int (length es) < maxFrameCount (options s1)"
  with quiet_frames [OF assms, of es] show "\<not> scans (frames es s1)"
    by (auto simp add: scans_def)
next
  assume "int (length es) \<le> maxFrameCount (options s1)"
  with quiet_frames [OF assms, of es] show "rects (trace (frames es s1)) = rects (trace s1)"
    by simp
qed

lemma teardown_old:
  assumes "checkType st = Some Old" and "one_loop st"
  shows "pending (teardown st) = []"
  using assms by (auto simp add: teardown_def one_loop_def split: option.splits)

lemma init_old_after:
  assumes old: "checkType st = Some Old" and one: "one_loop st"
  shows "checkType (snd (init e st)) = Some Old
    \<and> options (snd (init e st)) = options st
    \<and> (pending (snd (init e st)) = [] \<or> frameCount (snd (init e st)) \<le> 0)
    \<and> one_loop (snd (init e st))"
proof -
  let ?a = "htmlCollectionToArray (querySelectorAll e (elements (options (teardown st))))"
  let ?st1 = "(teardown st)\<lparr>els := ?a, elsLength := int (length ?a),
     frameCount := maxFrameCount (options (teardown st))\<rparr>"
  have i: "init e st = setSrcs e ?st1" by (simp add: init_def Let_def)
  have t: "same_setup st (teardown st)" by (rule teardown_setup)
  have "checkType ?st1 = Some Old" "frameCount ?st1 = maxFrameCount (options ?st1)"
    "pending ?st1 = []" "options ?st1 = options st"
    using old t teardown_old [OF old one] by (simp_all add: same_setup_def)
  with after_scan [of ?st1 e] show ?thesis unfolding i by simp
qed

lemma frame_old_after:
  assumes one: "one_loop st" and sc: "scans st"
  shows "checkType (step st (e, Frame)) = Some Old
    \<and> options (step st (e, Frame)) = options st
    \<and> (pending (step st (e, Frame)) = [] \<or> frameCount (step st (e, Frame)) \<le> 0)"
proof -
  from sc obtain h hs where p: "pending st = h # hs" by (cases "pending st") (simp_all add: scans_def)
  with one have hs: "hs = []" by (simp add: one_loop_def)
  let ?st0 = "st\<lparr>pending := []\<rparr>"
  have s: "step st (e, Frame) = snd (setSrcs e ?st0)" using p hs by (simp add: step_def)
  from sc have "checkType ?st0 = Some Old" "frameCount ?st0 = maxFrameCount (options ?st0)"
    "pending ?st0 = []" by (simp_all add: scans_def)
  with after_scan [of ?st0 e] show ?thesis unfolding s by simp
qed

text \<open>Every state the loader reaches has at most one callback pending.\<close>

lemma same_frames_refl: "same_frames s s"
  by (simp add: same_frames_def)

lemma same_frames_trans: "same_frames a b \<Longrightarrow> same_frames b c \<Longrightarrow> same_frames a c"
  by (simp add: same_frames_def)

lemma intersect_entry_frames: "same_frames s (snd (intersect_entry e en s))"
  by (cases "observer s") (simp_all add: intersect_entry_def same_frames_def Let_def)

lemma really_old_elem_frames: "same_frames s (really_old_elem e s x)"
  by (cases x) (simp_all add: same_frames_def really_old_elem_def)

lemma observe_elem_frames: "same_frames s (observe_elem s x)"
  by (cases x) (simp_all add: same_frames_def observe_elem_def observe_def)

lemma intersection_frames: "same_frames st (snd (intersection e ens st))"
proof -
  have fe: "\<And>s. same_frames s (snd (for_entries e ens s))"
    by (rule for_entries_rel [where R = same_frames,
          OF same_frames_refl same_frames_trans intersect_entry_frames])
  show ?thesis
  proof (cases "elsLength st = 0 \<and> observer st \<noteq> None")
    case True
    then obtain ts where ts: "observer st = Some ts" by auto
    let ?st1 = "st\<lparr>observer := Some [], trace := trace st @ [Disconnect]\<rparr>"
    from fe [of ?st1] True ts show ?thesis
      by (simp add: intersection_def disconnect_def same_frames_def)
  next
    case False
    with fe [of st] show ?thesis
      by (auto simp add: intersection_def disconnect_def same_frames_refl split: option.splits)
  qed
qed

lemma one_loop_frames: "same_frames st st' \<Longrightarrow> one_loop st \<Longrightarrow> one_loop st'"
  by (simp add: same_frames_def one_loop_def)

lemma reschedule_one_loop: "pending st = [] \<Longrightarrow> one_loop (snd (reschedule e st))"
  by (simp add: reschedule_def one_loop_def Let_def)

lemma setSrcs_one_loop:
  assumes one: "one_loop st" and np: "checkType st = Some Old \<longrightarrow> pending st = []"
  shows "one_loop (snd (setSrcs e st))"
proof (cases "checkType st")
  case None
  with one show ?thesis by (simp add: setSrcs_def)
next
  case (Some s)
  show ?thesis
  proof (cases s)
    case ReallyOld
    let ?st0 = "st\<lparr>elsLength := int (length (els st))\<rparr>"
    have "same_frames ?st0 (foldl (really_old_elem e) ?st0 (els st))"
      by (rule foldl_rel [where R = same_frames and f = "really_old_elem e",
          OF same_frames_refl same_frames_trans really_old_elem_frames])
    with Some ReallyOld one show ?thesis
      by (simp add: setSrcs_def same_frames_def one_loop_def)
  next
    case New
    let ?st0 = "st\<lparr>observer := Some [], elsLength := int (length (els st)),
                   trace := trace st @ [NewIntersectionObserver]\<rparr>"
    have "same_frames ?st0 (foldl observe_elem ?st0 (els st))"
      by (rule foldl_rel [where R = same_frames and f = observe_elem,
          OF same_frames_refl same_frames_trans observe_elem_frames])
    with Some New one show ?thesis
      by (simp add: setSrcs_def same_frames_def one_loop_def)
  next
    case Old
    with Some np have p: "pending st = []" by simp
    let ?st0 = "st\<lparr>elsLength := int (length (els st))\<rparr>"
    from Some Old have "checkType st = Some Old" by simp
    then show ?thesis
    proof (cases rule: setSrcs_old_cases [where e = e])
      case idle
      with p show ?thesis by (simp add: reschedule_one_loop)
    next
      case (threw err st1)
      from scan_from_schedule [of ?st0 e 0 "length (els st)"] threw(2) p
      have "pending st1 = []" by (simp add: same_schedule_def)
      with threw(3) show ?thesis by (simp add: one_loop_def)
    next
      case (scanned st1)
      from scan_from_schedule [of ?st0 e 0 "length (els st)"] scanned(2) p
      have "pending st1 = []" by (simp add: same_schedule_def)
      with scanned(3) show ?thesis by (simp add: reschedule_one_loop)
    qed
  qed
qed

lemma teardown_one_loop:
  assumes "one_loop st"
  shows "one_loop (teardown st) \<and> (checkType st = Some Old \<longrightarrow> pending (teardown st) = [])"
proof (cases "checkType st = Some Old")
  case True
  with assms teardown_old [of st] show ?thesis by (simp add: one_loop_def)
next
  case False
  with assms show ?thesis
    by (auto simp add: teardown_def disconnect_def one_loop_def split: option.splits strategy.splits)
qed

lemma init_one_loop:
  assumes "one_loop st"
  shows "one_loop (snd (init e st))"
proof -
  let ?a = "htmlCollectionToArray (querySelectorAll e (elements (options (teardown st))))"
  let ?st1 = "(teardown st)\<lparr>els := ?a, elsLength := int (length ?a),
     frameCount := maxFrameCount (options (teardown st))\<rparr>"
  have i: "init e st = setSrcs e ?st1" by (simp add: init_def Let_def)
  have t: "same_setup st (teardown st)" by (rule teardown_setup)
  from teardown_one_loop [OF assms] t
  have "one_loop ?st1" "checkType ?st1 = Some Old \<longrightarrow> pending ?st1 = []"
    by (simp_all add: one_loop_def same_setup_def)
  then show ?thesis unfolding i by (rule setSrcs_one_loop)
qed

lemma step_one_loop:
  assumes "one_loop st"
  shows "one_loop (step st x)"
proof (cases x)
  case (Pair e ev)
  show ?thesis
  proof (cases ev)
    case Frame
    show ?thesis
    proof (cases "pending st")
      case Nil
      with Pair Frame assms show ?thesis by (simp add: step_def)
    next
      case (Cons h hs)
      with assms have "hs = []" by (simp add: one_loop_def)
      then have "one_loop (st\<lparr>pending := hs\<rparr>)" "checkType (st\<lparr>pending := hs\<rparr>) = Some Old
          \<longrightarrow> pending (st\<lparr>pending := hs\<rparr>) = []"
        by (simp_all add: one_loop_def)
      then have "one_loop (snd (setSrcs e (st\<lparr>pending := hs\<rparr>)))" by (rule setSrcs_one_loop)
      with Pair Frame Cons show ?thesis by (simp add: step_def)
    qed
  next
    case (Load r)
    with Pair assms show ?thesis by (simp add: step_def one_loop_def)
  next
    case (Intersect ens)
    with Pair assms one_loop_frames [OF intersection_frames [of st e ens]] show ?thesis
      by (simp add: step_def)
  next
    case (PageUpdated n)
    with Pair assms init_one_loop [of st e] show ?thesis by (simp add: step_def)
  qed
qed

lemma run_one_loop: "one_loop st \<Longrightarrow> one_loop (run xs st)"
  unfolding run_def by (induction xs arbitrary: st) (simp_all add: step_one_loop)

lemma lazyLoad_one_loop: "one_loop (snd (lazyLoad e ov ns))"
proof -
  have "one_loop (configured e ov ns)" by (simp add: one_loop_def)
  then have "one_loop (snd (init e (configured e ov ns)))" by (rule init_one_loop)
  then show ?thesis by (simp add: one_loop_def lazyLoad_fields)
qed

lemma reachable_one_loop: "one_loop (run xs (snd (lazyLoad e ov ns)))"
  by (rule run_one_loop) (rule lazyLoad_one_loop)

lemma lazyLoad_old_after:
  assumes "detect e = Old"
  shows "checkType (snd (lazyLoad e ov ns)) = Some Old
    \<and> (pending (snd (lazyLoad e ov ns)) = [] \<or> frameCount (snd (lazyLoad e ov ns)) \<le> 0)"
proof -
  have "one_loop (configured e ov ns)" "checkType (configured e ov ns) = Some Old"
    using assms by (simp_all add: one_loop_def)
  from init_old_after [OF this(2) this(1), of e]
  show ?thesis by (simp add: lazyLoad_fields)
qed

text \<open>The bound is exact: while the working set is not empty and the browser keeps
  offering \<^verbatim>\<open>requestAnimationFrame\<close>, the callback that follows \<open>K\<close> idle ones scans.\<close>

lemma busy_frames:
  assumes "checkType st = Some Old"
    and "\<exists>h. pending st = [h]"
    and "0 < elsLength st"
    and "frameCount st + int (length es) = maxFrameCount (options st)"
    and "\<forall>e \<in> set es. w_requestAnimationFrame e = Function"
  shows "scans (frames es st)"
  using assms
proof (induction es arbitrary: st)
  case Nil
  then show ?case by (auto simp add: frames_def run_def scans_def)
next
  case (Cons e es)
  from Cons.prems obtain h where h: "pending st = [h]" by auto
  let ?st0 = "st\<lparr>pending := []\<rparr>"
  from Cons.prems have ne: "frameCount ?st0 \<noteq> maxFrameCount (options ?st0)" by simp
  from Cons.prems have "checkType ?st0 = Some Old" by simp
  then have "setSrcs e ?st0 = reschedule e ?st0"
    using ne by (cases rule: setSrcs_old_cases [where e = e]) simp_all
  with h have s: "step st (e, Frame) = snd (reschedule e ?st0)" by (simp add: step_def)
  have u: "frames (e # es) st = frames es (step st (e, Frame))"
    by (simp add: frames_def run_def)
  from Cons.prems have r: "w_requestAnimationFrame e = Function" by simp
  show ?case unfolding u s
  proof (rule Cons.IH)
    show "checkType (snd (reschedule e ?st0)) = Some Old"
      using Cons.prems r by (simp add: reschedule_def Let_def)
    show "\<exists>h. pending (snd (reschedule e ?st0)) = [h]"
      using Cons.prems r by (simp add: reschedule_def Let_def)
    show "0 < elsLength (snd (reschedule e ?st0))"
      using Cons.prems r by (simp add: reschedule_def Let_def)
    show "frameCount (snd (reschedule e ?st0)) + int (length es)
        = maxFrameCount (options (snd (reschedule e ?st0)))"
      using Cons.prems r by (simp add: reschedule_def Let_def)
    show "\<forall>e \<in> set es. w_requestAnimationFrame e = Function"
      using Cons.prems by simp
  qed
qed

text \<open>
  Claim C6. Let \<open>K\<close> be the configured \<^verbatim>\<open>maxFrameCount\<close>, and let \<open>s1\<close> be the state right
  after a scan of the polling strategy: after \<^verbatim>\<open>_init\<close> (which scans at once), after an
  animation-frame callback that scanned, or after the call of \<^verbatim>\<open>lazyLoad\<close> itself.
  Then, for every sequence of animation-frame callbacks that follows, in whatever
  environments: after fewer than \<open>K\<close> of them the next one still does not scan, so the
  first \<open>K\<close> callbacks after a scan do not scan and two scans are more than \<open>K\<close>
  callbacks apart; and during these \<open>K\<close> callbacks no rectangle is asked for.
  The premise \<open>one_loop\<close> holds in every state the loader reaches (lemma
  \<open>reachable_one_loop\<close>). A re-scan event is not an animation-frame callback: \<^verbatim>\<open>_init\<close>
  scans at once, whatever the counter.
\<close>

theorem polling_debounce:
  assumes "(one_loop st \<and> checkType st = Some Old \<and> s1 = snd (init e st))
      \<or> (one_loop st \<and> scans st \<and> s1 = step st (e, Frame))
      \<or> (detect e = Old \<and> s1 = snd (lazyLoad e ov ns))"
  shows "(int (length es) < maxFrameCount (options s1) \<longrightarrow> \<not> scans (frames es s1))
    \<and> (int (length es) \<le> maxFrameCount (options s1) \<longrightarrow>
          rects (trace (frames es s1)) = rects (trace s1))"
proof -
  have "checkType s1 = Some Old \<and> (pending s1 = [] \<or> frameCount s1 \<le> 0)"
    using assms init_old_after [of st e] frame_old_after [of st e] lazyLoad_old_after [of e ov ns]
    by (auto simp add: scans_def)
  then show ?thesis using quiet_after [of s1 es] by simp
qed

theorem polling_debounce_witness:
  "detect (below_fold [0, 1]) = Old
    \<and> maxFrameCount (options (snd (lazyLoad (below_fold [0, 1]) every_2_frames page))) = 2
    \<and> \<not> scans (frames [] (snd (lazyLoad (below_fold [0, 1]) every_2_frames page)))
    \<and> \<not> scans (frames [below_fold [0, 1]] (snd (lazyLoad (below_fold [0, 1]) every_2_frames page)))
    \<and> scans (frames [below_fold [0, 1], below_fold [0, 1]]
          (snd (lazyLoad (below_fold [0, 1]) every_2_frames page)))
    \<and> rects (trace (frames [below_fold [0, 1], below_fold [0, 1]]
          (snd (lazyLoad (below_fold [0, 1]) every_2_frames page)))) = [0, 1]
    \<and> rects (trace (frames [below_fold [0, 1], below_fold [0, 1], below_fold [0, 1]]
          (snd (lazyLoad (below_fold [0, 1]) every_2_frames page)))) = [0, 1, 0, 1]"
proof -
  let ?e = "below_fold [0, 1]"
  let ?s1 = "snd (lazyLoad ?e every_2_frames page)"
  have d: "detect ?e = Old"
    by (simp add: detect_def below_fold_def browser_def)
  have k: "maxFrameCount (options ?s1) = 2"
    by code_simp
  have r: "rects (trace ?s1) = [0, 1]"
    by code_simp
  have b: "scans (frames [?e, ?e] ?s1)"
    by code_simp
  have c: "rects (trace (frames [?e, ?e, ?e] ?s1)) = [0, 1, 0, 1]"
    by code_simp
  from d have h: "(one_loop (initial page) \<and> checkType (initial page) = Some Old
        \<and> ?s1 = snd (init ?e (initial page)))
      \<or> (one_loop (initial page) \<and> scans (initial page)
        \<and> ?s1 = step (initial page) (?e, Frame))
      \<or> (detect ?e = Old \<and> ?s1 = snd (lazyLoad ?e every_2_frames page))"
    by simp
  from polling_debounce [OF h, of "[]"] polling_debounce [OF h, of "[?e]"]
    polling_debounce [OF h, of "[?e, ?e]"] k r
  have "\<not> scans (frames [] ?s1)" and "\<not> scans (frames [?e] ?s1)"
    and "rects (trace (frames [?e, ?e] ?s1)) = [0, 1]"
    by simp_all
  with d k b c show ?thesis by simp
qed

subsection \<open>The clean-up of the working set\<close>

text \<open>The clean-up only removes slots: what it leaves was there before. It may leave
  \<^verbatim>\<open>undefined\<close> slots behind, since the index advances after a removal too.\<close>

lemma splice1_subset: "set (splice1 xs i) \<subseteq> set xs"
proof -
  have "set (take i xs) \<subseteq> set xs" by (rule set_take_subset)
  moreover have "set (drop (Suc i) xs) \<subseteq> set xs" by (rule set_drop_subset)
  ultimately show ?thesis by (simp add: splice1_def)
qed

lemma compact_from_subset: "set (compact_from i n xs) \<subseteq> set xs"
proof (induction i n xs rule: compact_from.induct)
  case (1 i n xs)
  show ?case
  proof (cases "i < n")
    case False
    then show ?thesis by (simp add: compact_from.simps)
  next
    case True
    let ?ys = "if js_index xs i = None then splice1 xs i else xs"
    from 1 True have "set (compact_from (Suc i) n ?ys) \<subseteq> set ?ys" by simp
    moreover have "set ?ys \<subseteq> set xs" by (simp add: splice1_subset)
    ultimately have "set (compact_from (Suc i) n ?ys) \<subseteq> set xs" by (rule subset_trans)
    with True show ?thesis by (simp add: compact_from.simps [of i])
  qed
qed

lemma compact_from_leaves_a_slot:
  "compact_from 0 3 [None, None, None] = [None]
   \<and> compact_from 0 3 [None, Some 7, None] = [Some 7]"
  by code_simp

subsection \<open>The polling strategy: one activation per element\<close>

lemma quiet_refl: "quiet s s"
  by (simp add: quiet_def)

lemma quiet_trans: "quiet a b \<Longrightarrow> quiet b c \<Longrightarrow> quiet a c"
  by (simp add: quiet_def)

text \<open>One round of the loop of the scan either is quiet, or activates the element of
  the slot, which was not flagged.\<close>

lemma scan_elem_effect:
  "quiet st (snd (scan_elem e i st))
   \<or> (\<exists>r. js_index (els st) i = Some r \<and> lazyloaded (nodes st r) = None
        \<and> nodes (snd (scan_elem e i st)) =
            (nodes st)(r := fst (updateElement e
               ((nodes st r)\<lparr>lazyloaded := Some True, load_listener := True\<rparr>)))
        \<and> updates (trace (snd (scan_elem e i st))) = updates (trace st) @ [r])"
proof (cases "js_index (els st) i")
  case None
  then show ?thesis by (simp add: scan_elem_def quiet_def)
next
  case (Some r)
  show ?thesis
  proof (cases "lazyloaded (nodes st r) = None")
    case False
    with Some show ?thesis by (simp add: scan_elem_def quiet_def)
  next
    case True
    show ?thesis
    proof (cases "elementInViewport e (nodes st) r")
      case (Inl err)
      with Some True show ?thesis by (simp add: scan_elem_def quiet_def)
    next
      case (Inr p)
      obtain n visible where p: "p = (n, visible)" by (cases p)
      show ?thesis
      proof (cases visible)
        case False
        with Some True Inr p show ?thesis by (simp add: scan_elem_def quiet_def)
      next
        case v: True
        with Some True Inr p show ?thesis
          by (simp add: scan_elem_def nodes_updateNode trace_updateNode addLoadListener_def)
      qed
    qed
  qed
qed

lemma setSrcs_old_rel:
  assumes refl: "\<And>s. R s s"
    and trans: "\<And>a b c. R a b \<Longrightarrow> R b c \<Longrightarrow> R a c"
    and glue: "\<And>s s'. quiet s s' \<Longrightarrow> R s s'"
    and elem: "\<And>i s. R s (snd (scan_elem e i s))"
    and old: "checkType st = Some Old"
  shows "R st (snd (setSrcs e st))"
proof -
  let ?st0 = "st\<lparr>elsLength := int (length (els st))\<rparr>"
  have re: "\<And>s. R s (snd (reschedule e s))"
    by (rule glue) (simp add: quiet_def reschedule_def Let_def)
  have a: "R st ?st0" by (rule glue) (simp add: quiet_def)
  have b: "R ?st0 (snd (scan_from e 0 (length (els st)) ?st0))"
    by (rule scan_from_rel [where R = R, OF refl trans elem])
  from old show ?thesis
  proof (cases rule: setSrcs_old_cases [where e = e])
    case idle
    with re [of st] show ?thesis by simp
  next
    case (threw err st1)
    with a b trans [of st ?st0 st1] show ?thesis by simp
  next
    case (scanned st1)
    let ?st2 = "st1\<lparr>els := compact_from 0 (nat (elsLength st1)) (els st1),
          elsLength := int (length (compact_from 0 (nat (elsLength st1)) (els st1))),
          frameCount := - 1\<rparr>"
    from scanned a b have "R st st1" using trans [of st ?st0 st1] by simp
    moreover have "R st1 ?st2" by (rule glue) (simp add: quiet_def)
    ultimately have "R st ?st2" by (rule trans)
    then have "R st (snd (reschedule e ?st2))" using re [of ?st2] by (rule trans)
    with scanned show ?thesis by simp
  qed
qed

lemma teardown_quiet: "quiet st (teardown st)"
  by (simp add: teardown_def quiet_def disconnect_def split: option.splits strategy.splits)

lemma init_old_rel:
  assumes refl: "\<And>s. R s s"
    and trans: "\<And>a b c. R a b \<Longrightarrow> R b c \<Longrightarrow> R a c"
    and glue: "\<And>s s'. quiet s s' \<Longrightarrow> R s s'"
    and elem: "\<And>i s. R s (snd (scan_elem e i s))"
    and old: "checkType st = Some Old"
  shows "R st (snd (init e st))"
proof -
  let ?a = "htmlCollectionToArray (querySelectorAll e (elements (options (teardown st))))"
  let ?st1 = "(teardown st)\<lparr>els := ?a, elsLength := int (length ?a),
     frameCount := maxFrameCount (options (teardown st))\<rparr>"
  have i: "init e st = setSrcs e ?st1" by (simp add: init_def Let_def)
  have "quiet st ?st1" using teardown_quiet [of st] by (simp add: quiet_def)
  then have a: "R st ?st1" by (rule glue)
  have c: "checkType ?st1 = Some Old"
    using old teardown_setup [of st] by (simp add: same_setup_def)
  have "R ?st1 (snd (setSrcs e ?st1))"
    by (rule setSrcs_old_rel [where R = R, OF refl trans glue elem c])
  with a show ?thesis unfolding i by (rule trans)
qed

lemma stays_once_refl: "stays_once s s"
  by (simp add: stays_once_def)

lemma stays_once_trans: "stays_once a b \<Longrightarrow> stays_once b c \<Longrightarrow> stays_once a c"
  by (simp add: stays_once_def)

lemma stays_once_quiet: "quiet s s' \<Longrightarrow> stays_once s s'"
  by (simp add: stays_once_def once_def quiet_def)

lemma scan_elem_once: "stays_once s (snd (scan_elem e i s))"
proof -
  from scan_elem_effect [of s e i] show ?thesis
  proof
    assume "quiet s (snd (scan_elem e i s))"
    then show ?thesis by (rule stays_once_quiet)
  next
    assume "\<exists>r. js_index (els s) i = Some r \<and> lazyloaded (nodes s r) = None
        \<and> nodes (snd (scan_elem e i s)) =
            (nodes s)(r := fst (updateElement e
               ((nodes s r)\<lparr>lazyloaded := Some True, load_listener := True\<rparr>)))
        \<and> updates (trace (snd (scan_elem e i s))) = updates (trace s) @ [r]"
    then obtain r where f: "lazyloaded (nodes s r) = None"
      and n: "nodes (snd (scan_elem e i s)) =
            (nodes s)(r := fst (updateElement e
               ((nodes s r)\<lparr>lazyloaded := Some True, load_listener := True\<rparr>)))"
      and u: "updates (trace (snd (scan_elem e i s))) = updates (trace s) @ [r]"
      by blast
    show ?thesis
      unfolding stays_once_def
    proof
      assume o: "once s"
      with f have "r \<notin> set (updates (trace s))" by (auto simp add: once_def)
      with o n u show "once (snd (scan_elem e i s))" by (auto simp add: once_def)
    qed
  qed
qed

lemma settled_refl: "settled r s s"
  by (simp add: settled_def)

lemma settled_trans: "settled r a b \<Longrightarrow> settled r b c \<Longrightarrow> settled r a c"
  by (auto simp add: settled_def)

lemma settled_quiet: "quiet s s' \<Longrightarrow> settled r s s'"
  by (simp add: settled_def quiet_def)

lemma scan_elem_settled: "settled r s (snd (scan_elem e i s))"
  using scan_elem_effect [of s e i] by (auto simp add: settled_def quiet_def)

text \<open>Under the polling strategy there is no observer.\<close>

lemma setSrcs_old_observer:
  assumes "checkType st = Some Old"
  shows "observer (snd (setSrcs e st)) = observer st"
proof -
  let ?st0 = "st\<lparr>elsLength := int (length (els st))\<rparr>"
  note s = scan_from_schedule [of ?st0 e 0 "length (els st)"]
  from assms show ?thesis
  proof (cases rule: setSrcs_old_cases [where e = e])
    case idle
    then show ?thesis by (simp add: reschedule_def Let_def)
  next
    case (threw err st1)
    with s show ?thesis by (simp add: same_schedule_def)
  next
    case (scanned st1)
    with s show ?thesis by (simp add: same_schedule_def reschedule_def Let_def)
  qed
qed

lemma init_old_observer:
  assumes "checkType st = Some Old"
  shows "observer (snd (init e st)) = observer st"
proof -
  let ?a = "htmlCollectionToArray (querySelectorAll e (elements (options (teardown st))))"
  let ?st1 = "(teardown st)\<lparr>els := ?a, elsLength := int (length ?a),
     frameCount := maxFrameCount (options (teardown st))\<rparr>"
  have i: "init e st = setSrcs e ?st1" by (simp add: init_def Let_def)
  have "checkType ?st1 = Some Old" "observer ?st1 = observer st"
    using assms by (simp_all add: teardown_def)
  with setSrcs_old_observer [of ?st1 e] show ?thesis unfolding i by simp
qed

lemma step_polling:
  assumes old: "checkType st = Some Old" and obs: "observer st = None" and o: "once st"
  shows "checkType (step st x) = Some Old \<and> observer (step st x) = None \<and> once (step st x)"
proof -
  have c: "checkType (step st x) = Some Old"
    using step_setup [of st x] old by (simp add: same_setup_def)
  obtain e ev where x: "x = (e, ev)" by (cases x)
  have "observer (step st x) = None \<and> once (step st x)"
  proof (cases ev)
    case Frame
    show ?thesis
    proof (cases "pending st")
      case Nil
      with x Frame obs o show ?thesis by (simp add: step_def)
    next
      case (Cons h hs)
      let ?st0 = "st\<lparr>pending := hs\<rparr>"
      have so: "checkType ?st0 = Some Old" using old by simp
      have "stays_once ?st0 (snd (setSrcs e ?st0))"
        by (rule setSrcs_old_rel [where R = stays_once,
              OF stays_once_refl stays_once_trans stays_once_quiet scan_elem_once so])
      moreover have "once ?st0" using o by (simp add: once_def)
      ultimately have "once (snd (setSrcs e ?st0))" by (simp add: stays_once_def)
      with x Frame Cons obs setSrcs_old_observer [OF so, of e] show ?thesis
        by (simp add: step_def)
    qed
  next
    case (Load r)
    with x obs o show ?thesis by (simp add: step_def once_def loaded_def)
  next
    case (Intersect ens)
    with x obs o show ?thesis by (simp add: step_def)
  next
    case (PageUpdated n)
    have "stays_once st (snd (init e st))"
      by (rule init_old_rel [where R = stays_once,
            OF stays_once_refl stays_once_trans stays_once_quiet scan_elem_once old])
    with o have "once (snd (init e st))" by (simp add: stays_once_def)
    with x PageUpdated obs o init_old_observer [OF old, of e] show ?thesis
      by (simp add: step_def)
  qed
  with c show ?thesis by simp
qed

lemma run_polling:
  assumes "checkType st = Some Old" and "observer st = None" and "once st"
  shows "checkType (run xs st) = Some Old \<and> observer (run xs st) = None \<and> once (run xs st)"
  using assms
proof (induction xs arbitrary: st)
  case Nil
  then show ?case by (simp add: run_def)
next
  case (Cons x xs)
  from step_polling [OF Cons.prems, of x] Cons.IH [of "step st x"]
  show ?case by (simp add: run_def)
qed

lemma lazyLoad_polling:
  assumes "detect e = Old"
  shows "checkType (snd (lazyLoad e ov ns)) = Some Old
    \<and> observer (snd (lazyLoad e ov ns)) = None \<and> once (snd (lazyLoad e ov ns))"
proof -
  have old: "checkType (configured e ov ns) = Some Old" using assms by simp
  have "stays_once (configured e ov ns) (snd (init e (configured e ov ns)))"
    by (rule init_old_rel [where R = stays_once,
          OF stays_once_refl stays_once_trans stays_once_quiet scan_elem_once old])
  moreover have "once (configured e ov ns)" by (simp add: once_def)
  ultimately have "once (snd (init e (configured e ov ns)))" by (simp add: stays_once_def)
  then have "once (snd (lazyLoad e ov ns))" by (simp add: once_def lazyLoad_fields)
  moreover have "checkType (snd (lazyLoad e ov ns)) = Some Old"
    using assms by (simp add: lazyLoad_checkType)
  moreover have "observer (snd (lazyLoad e ov ns)) = None"
    using init_old_observer [OF old, of e] by (simp add: lazyLoad_fields)
  ultimately show ?thesis by simp
qed

lemma step_settled:
  assumes old: "checkType st = Some Old"
  shows "settled r st (step st (e, Frame)) \<and> settled r st (step st (e, PageUpdated n))"
proof
  show "settled r st (step st (e, Frame))"
  proof (cases "pending st")
    case Nil
    then show ?thesis by (simp add: step_def settled_refl)
  next
    case (Cons h hs)
    let ?st0 = "st\<lparr>pending := hs\<rparr>"
    have so: "checkType ?st0 = Some Old" using old by simp
    have "settled r ?st0 (snd (setSrcs e ?st0))"
      by (rule setSrcs_old_rel [where R = "settled r",
            OF settled_refl settled_trans settled_quiet scan_elem_settled so])
    with Cons show ?thesis by (simp add: step_def settled_def)
  qed
next
  have "settled r st (snd (init e st))"
    by (rule init_old_rel [where R = "settled r",
          OF settled_refl settled_trans settled_quiet scan_elem_settled old])
  then show "settled r st (step st (e, PageUpdated n))"
    by (simp add: step_def settled_refl)
qed

text \<open>
  Claim C9. Start the loader in an environment for which the detector answers \<^verbatim>\<open>'old'\<close>,
  and let any sequence of callbacks follow (animation frames, \<^verbatim>\<open>load\<close> events, re-scan
  events, in whatever environments). In the state reached, no node has been handed to the
  updater more than once; every node that has been handed to it has its \<^verbatim>\<open>lazyloaded\<close>
  flag set; and a node whose flag is set is left exactly as it is by a further
  animation-frame callback and by a further re-scan, whatever they scan. (The slot of an
  activated element is set to \<^verbatim>\<open>undefined\<close> before the clean-up; a slot that survives
  the clean-up is \<^verbatim>\<open>undefined\<close> or holds an element that was not activated, and the
  scan skips \<^verbatim>\<open>undefined\<close> slots.)
\<close>

theorem polling_activates_once:
  assumes "detect e0 = Old"
  shows "distinct (updates (trace (run xs (snd (lazyLoad e0 ov ns)))))
    \<and> (\<forall>r \<in> set (updates (trace (run xs (snd (lazyLoad e0 ov ns))))).
          lazyloaded (nodes (run xs (snd (lazyLoad e0 ov ns))) r) = Some True)
    \<and> (\<forall>r e n. lazyloaded (nodes (run xs (snd (lazyLoad e0 ov ns))) r) \<noteq> None \<longrightarrow>
          nodes (step (run xs (snd (lazyLoad e0 ov ns))) (e, Frame)) r
            = nodes (run xs (snd (lazyLoad e0 ov ns))) r
          \<and> nodes (step (run xs (snd (lazyLoad e0 ov ns))) (e, PageUpdated n)) r
            = nodes (run xs (snd (lazyLoad e0 ov ns))) r)"
proof -
  let ?st = "run xs (snd (lazyLoad e0 ov ns))"
  from lazyLoad_polling [OF assms, of ov ns]
  have "checkType ?st = Some Old \<and> observer ?st = None \<and> once ?st"
    by (intro run_polling) simp_all
  then have old: "checkType ?st = Some Old" and o: "once ?st" by simp_all
  from step_settled [OF old] o show ?thesis
    by (simp add: once_def settled_def)
qed

theorem polling_activates_once_witness:
  "detect (browser Function False [0, 1]) = Old
    \<and> updates (trace polled) = [0, 1]
    \<and> updates (trace (run later polled)) = [0, 1]
    \<and> lazyloaded (nodes (run later polled) 0) = Some True
    \<and> nodes (step (run later polled) (browser Function False [0, 1], Frame)) 0
        = nodes (run later polled) 0"
proof -
  have d: "detect (browser Function False [0, 1]) = Old"
    by (simp add: detect_def browser_def)
  have u: "updates (trace polled) = [0, 1]" "updates (trace (run later polled)) = [0, 1]"
    unfolding polled_def later_def by code_simp+
  note t = polling_activates_once [OF d, of later no_overrides page, folded polled_def]
  from t u have f: "lazyloaded (nodes (run later polled) 0) = Some True"
    by simp
  from t have g: "\<And>r e. lazyloaded (nodes (run later polled) r) \<noteq> None \<Longrightarrow>
      nodes (step (run later polled) (e, Frame)) r = nodes (run later polled) r"
    by blast
  from f have "nodes (step (run later polled) (browser Function False [0, 1], Frame)) 0
        = nodes (run later polled) 0"
    by (intro g) simp
  with d u f show ?thesis by simp
qed

subsection \<open>When the deferred attributes go\<close>

lemma keeps_refl: "keeps r s s"
  by (simp add: keeps_def)

lemma keeps_trans: "keeps r a b \<Longrightarrow> keeps r b c \<Longrightarrow> keeps r a c"
  by (auto simp add: keeps_def deferred_def)

lemma keeps_quiet: "quiet s s' \<Longrightarrow> keeps r s s'"
  by (simp add: keeps_def quiet_def)

lemma updateElement_keeps:
  "attrs el ''data-lazyload'' = None \<Longrightarrow> deferred (fst (updateElement e el)) = deferred el"
  by (simp add: deferred_def updateElement_deferred)

lemma scan_elem_keeps: "keeps r s (snd (scan_elem e i s))"
proof -
  from scan_elem_effect [of s e i] show ?thesis
  proof
    assume "quiet s (snd (scan_elem e i s))"
    then show ?thesis by (rule keeps_quiet)
  next
    assume "\<exists>r. js_index (els s) i = Some r \<and> lazyloaded (nodes s r) = None
        \<and> nodes (snd (scan_elem e i s)) =
            (nodes s)(r := fst (updateElement e
               ((nodes s r)\<lparr>lazyloaded := Some True, load_listener := True\<rparr>)))
        \<and> updates (trace (snd (scan_elem e i s))) = updates (trace s) @ [r]"
    then obtain r' where n: "nodes (snd (scan_elem e i s)) =
            (nodes s)(r' := fst (updateElement e
               ((nodes s r')\<lparr>lazyloaded := Some True, load_listener := True\<rparr>)))"
      by blast
    show ?thesis
      unfolding keeps_def
    proof
      assume m: "attrs (nodes s r) ''data-lazyload'' = None"
      show "deferred (nodes (snd (scan_elem e i s)) r) = deferred (nodes s r)"
      proof (cases "r' = r")
        case False
        with n show ?thesis by simp
      next
        case True
        from m have "deferred (fst (updateElement e
            ((nodes s r)\<lparr>lazyloaded := Some True, load_listener := True\<rparr>)))
          = deferred ((nodes s r)\<lparr>lazyloaded := Some True, load_listener := True\<rparr>)"
          by (intro updateElement_keeps) simp
        with n True show ?thesis by (simp add: deferred_def)
      qed
    qed
  qed
qed

text \<open>One entry of a batch either changes nothing, or activates its target.\<close>

lemma intersect_entry_effect:
  "intersect_entry e en st = (None, st)
   \<or> quiet st (snd (intersect_entry e en st))
   \<or> (nodes (snd (intersect_entry e en st)) =
        (nodes st)(target en := fst (updateElement e ((nodes st (target en))\<lparr>load_listener := True\<rparr>)))
      \<and> updates (trace (snd (intersect_entry e en st))) = updates (trace st) @ [target en])"
proof (cases "0 < intersectionRatio en")
  case False
  then show ?thesis by (simp add: intersect_entry_def)
next
  case True
  show ?thesis
  proof (cases "observer st")
    case None
    with True show ?thesis by (simp add: intersect_entry_def quiet_def)
  next
    case (Some ts)
    with True show ?thesis
      by (simp add: intersect_entry_def Let_def nodes_updateNode trace_updateNode addLoadListener_def)
  qed
qed

lemma intersect_entry_keeps: "keeps r s (snd (intersect_entry e en s))"
proof -
  from intersect_entry_effect [of e en s]
  consider (same) "intersect_entry e en s = (None, s)"
    | (quiet) "quiet s (snd (intersect_entry e en s))"
    | (act) "nodes (snd (intersect_entry e en s)) =
        (nodes s)(target en := fst (updateElement e ((nodes s (target en))\<lparr>load_listener := True\<rparr>)))"
    by blast
  then show ?thesis
  proof cases
    case same
    then show ?thesis by (simp add: keeps_refl)
  next
    case quiet
    then show ?thesis by (rule keeps_quiet)
  next
    case act
    show ?thesis
      unfolding keeps_def
    proof
      assume m: "attrs (nodes s r) ''data-lazyload'' = None"
      show "deferred (nodes (snd (intersect_entry e en s)) r) = deferred (nodes s r)"
      proof (cases "target en = r")
        case False
        with act show ?thesis by simp
      next
        case True
        from m have "deferred (fst (updateElement e ((nodes s r)\<lparr>load_listener := True\<rparr>)))
          = deferred ((nodes s r)\<lparr>load_listener := True\<rparr>)"
          by (intro updateElement_keeps) simp
        with act True show ?thesis by (simp add: deferred_def)
      qed
    qed
  qed
qed

lemma observe_elem_quiet: "quiet s (observe_elem s x)"
  by (cases x) (simp_all add: quiet_def observe_elem_def observe_def)

lemma setSrcs_new_quiet:
  assumes "checkType st = Some New"
  shows "quiet st (snd (setSrcs e st))"
proof (cases "w_IntersectionObserver e")
  case False
  with assms show ?thesis by (simp add: setSrcs_def quiet_def)
next
  case True
  let ?st0 = "st\<lparr>observer := Some [], elsLength := int (length (els st)),
                   trace := trace st @ [NewIntersectionObserver]\<rparr>"
  have "quiet ?st0 (foldl observe_elem ?st0 (els st))"
    by (rule foldl_rel [where R = quiet and f = observe_elem,
          OF quiet_refl quiet_trans observe_elem_quiet])
  with assms True show ?thesis by (simp add: setSrcs_def quiet_def)
qed

lemma setSrcs_keeps:
  assumes "checkType st \<noteq> Some ReallyOld"
  shows "keeps r st (snd (setSrcs e st))"
proof (cases "checkType st")
  case None
  then show ?thesis by (simp add: setSrcs_def keeps_refl)
next
  case (Some s)
  with assms have "s = Old \<or> s = New" by (cases s) simp_all
  then show ?thesis
  proof
    assume "s = Old"
    with Some have old: "checkType st = Some Old" by simp
    show ?thesis
      by (rule setSrcs_old_rel [where R = "keeps r",
            OF keeps_refl keeps_trans keeps_quiet scan_elem_keeps old])
  next
    assume "s = New"
    with Some have "checkType st = Some New" by simp
    then have "quiet st (snd (setSrcs e st))" by (rule setSrcs_new_quiet)
    then show ?thesis by (rule keeps_quiet)
  qed
qed

lemma init_keeps:
  assumes "checkType st \<noteq> Some ReallyOld"
  shows "keeps r st (snd (init e st))"
proof -
  let ?a = "htmlCollectionToArray (querySelectorAll e (elements (options (teardown st))))"
  let ?st1 = "(teardown st)\<lparr>els := ?a, elsLength := int (length ?a),
     frameCount := maxFrameCount (options (teardown st))\<rparr>"
  have i: "init e st = setSrcs e ?st1" by (simp add: init_def Let_def)
  have "quiet st ?st1" using teardown_quiet [of st] by (simp add: quiet_def)
  then have a: "keeps r st ?st1" by (rule keeps_quiet)
  have "checkType ?st1 \<noteq> Some ReallyOld"
    using assms teardown_setup [of st] by (simp add: same_setup_def)
  then have "keeps r ?st1 (snd (setSrcs e ?st1))" by (rule setSrcs_keeps)
  with a show ?thesis unfolding i by (rule keeps_trans)
qed

lemma intersection_keeps: "keeps r st (snd (intersection e ens st))"
proof -
  have fe: "\<And>s. keeps r s (snd (for_entries e ens s))"
    by (rule for_entries_rel [where R = "keeps r",
          OF keeps_refl keeps_trans intersect_entry_keeps])
  show ?thesis
  proof (cases "elsLength st = 0 \<and> observer st \<noteq> None")
    case True
    then obtain ts where ts: "observer st = Some ts" by auto
    let ?st1 = "st\<lparr>observer := Some [], trace := trace st @ [Disconnect]\<rparr>"
    have "keeps r st ?st1" by (rule keeps_quiet) (simp add: quiet_def)
    then have "keeps r st (snd (for_entries e ens ?st1))" using fe [of ?st1] by (rule keeps_trans)
    with True ts show ?thesis by (simp add: intersection_def disconnect_def)
  next
    case False
    with fe [of st] show ?thesis
      by (auto simp add: intersection_def disconnect_def keeps_refl split: option.splits)
  qed
qed

lemma step_keeps:
  assumes "checkType st \<noteq> Some ReallyOld" and "ev \<noteq> Load r"
  shows "keeps r st (step st (e, ev))"
proof (cases ev)
  case Frame
  show ?thesis
  proof (cases "pending st")
    case Nil
    with Frame show ?thesis by (simp add: step_def keeps_refl)
  next
    case (Cons h hs)
    from assms have "checkType (st\<lparr>pending := hs\<rparr>) \<noteq> Some ReallyOld" by simp
    then have "keeps r (st\<lparr>pending := hs\<rparr>) (snd (setSrcs e (st\<lparr>pending := hs\<rparr>)))"
      by (rule setSrcs_keeps)
    with Frame Cons show ?thesis by (simp add: step_def keeps_def)
  qed
next
  case (Load r')
  with assms have "r' \<noteq> r" by simp
  with Load show ?thesis by (simp add: step_def keeps_def)
next
  case (Intersect ens)
  with intersection_keeps [of r st e ens] show ?thesis by (simp add: step_def keeps_refl)
next
  case (PageUpdated n)
  with init_keeps [OF assms(1), of r e] show ?thesis by (simp add: step_def keeps_refl)
qed

lemma really_old_fold_strips:
  "Some r \<in> set xs \<Longrightarrow> no_deferred (nodes (foldl (really_old_elem e) st xs) r)"
proof (induction xs arbitrary: st)
  case Nil
  then show ?case by simp
next
  case (Cons x xs)
  show ?case
  proof (cases "x = Some r")
    case True
    have "no_deferred (nodes (really_old_elem e st (Some r)) r)"
      using really_old_elem_self [of e st r] by simp
    then have "nodes (foldl (really_old_elem e) (really_old_elem e st (Some r)) xs) r
        = nodes (really_old_elem e st (Some r)) r"
      by (rule really_old_fold_idle)
    with True really_old_elem_self [of e st r] show ?thesis by simp
  next
    case False
    with Cons.prems have "Some r \<in> set xs" by simp
    then show ?thesis using Cons.IH [of "really_old_elem e st x"] by simp
  qed
qed

lemma listener_after_updateElement:
  "attrs el ''data-lazyload'' = None \<Longrightarrow>
     load_listener (fst (updateElement e (el\<lparr>load_listener := True\<rparr>)))"
  by (simp add: updateElement_listener)

text \<open>
  Claim C2, as the code has it. Let \<open>r\<close> be an element without the generic marker. Under
  the strategies \<^verbatim>\<open>'old'\<close> and \<^verbatim>\<open>'new'\<close>, no callback other than the \<^verbatim>\<open>load\<close> event on
  \<open>r\<close> itself changes its deferred attributes: not a scan with its clean-up of the
  working set, not a batch of the observer, not a re-scan. When a round of the scan, or
  an entry of a batch, hands \<open>r\<close> to the updater, \<open>r\<close> has the \<^verbatim>\<open>load\<close> listener afterwards;
  and the \<^verbatim>\<open>load\<close> event on an element that has the listener removes the three deferred
  attributes. Under \<^verbatim>\<open>'really-old'\<close>, \<^verbatim>\<open>_setSrcs\<close> removes the deferred attributes of every
  element of the working set in the same pass.
\<close>

theorem deferred_attributes_until_load:
  assumes "attrs (nodes st r) ''data-lazyload'' = None"
  shows "(checkType st \<noteq> Some ReallyOld \<and> ev \<noteq> Load r \<longrightarrow>
            deferred (nodes (step st (e, ev)) r) = deferred (nodes st r))
    \<and> (updates (trace (snd (scan_elem e i st))) = updates (trace st) @ [r] \<longrightarrow>
            load_listener (nodes (snd (scan_elem e i st)) r))
    \<and> (updates (trace (snd (intersect_entry e en st))) = updates (trace st) @ [r] \<longrightarrow>
            load_listener (nodes (snd (intersect_entry e en st)) r))
    \<and> (load_listener (nodes st r) \<longrightarrow> no_deferred (nodes (step st (e, Load r)) r))
    \<and> (checkType st = Some ReallyOld \<and> Some r \<in> set (els st) \<longrightarrow>
            no_deferred (nodes (snd (setSrcs e st)) r))"
proof (intro conjI impI)
  assume "checkType st \<noteq> Some ReallyOld \<and> ev \<noteq> Load r"
  then have "keeps r st (step st (e, ev))" by (simp add: step_keeps)
  with assms show "deferred (nodes (step st (e, ev)) r) = deferred (nodes st r)"
    by (simp add: keeps_def)
next
  assume u: "updates (trace (snd (scan_elem e i st))) = updates (trace st) @ [r]"
  from scan_elem_effect [of st e i] u
  have "nodes (snd (scan_elem e i st)) =
      (nodes st)(r := fst (updateElement e
         ((nodes st r)\<lparr>lazyloaded := Some True, load_listener := True\<rparr>)))"
    by (auto simp add: quiet_def)
  moreover from assms
  have "load_listener (fst (updateElement e
      ((nodes st r)\<lparr>lazyloaded := Some True, load_listener := True\<rparr>)))"
    by (simp add: updateElement_listener)
  ultimately show "load_listener (nodes (snd (scan_elem e i st)) r)" by simp
next
  assume u: "updates (trace (snd (intersect_entry e en st))) = updates (trace st) @ [r]"
  from intersect_entry_effect [of e en st] u
  have "nodes (snd (intersect_entry e en st)) =
      (nodes st)(r := fst (updateElement e ((nodes st r)\<lparr>load_listener := True\<rparr>)))"
    by (auto simp add: quiet_def)
  moreover from assms
  have "load_listener (fst (updateElement e ((nodes st r)\<lparr>load_listener := True\<rparr>)))"
    by (rule listener_after_updateElement)
  ultimately show "load_listener (nodes (snd (intersect_entry e en st)) r)" by simp
next
  assume "load_listener (nodes st r)"
  then show "no_deferred (nodes (step st (e, Load r)) r)"
    by (simp add: step_def loaded_def no_deferred_def)
next
  assume a: "checkType st = Some ReallyOld \<and> Some r \<in> set (els st)"
  then have "no_deferred (nodes (foldl (really_old_elem e)
      (st\<lparr>elsLength := int (length (els st))\<rparr>) (els st)) r)"
    by (intro really_old_fold_strips) simp
  with a show "no_deferred (nodes (snd (setSrcs e st)) r)"
    by (simp add: setSrcs_def)
qed

theorem deferred_attributes_until_load_witness:
  "attrs (nodes waiting 0) ''data-lazyload'' = None
    \<and> updates (trace waiting) = []
    \<and> updates (trace scrolled) = [0]
    \<and> src (nodes scrolled 0) = Some ''a.png''
    \<and> deferred (nodes scrolled 0) = (Some ''a.png'', None, None)
    \<and> load_listener (nodes scrolled 0)
    \<and> no_deferred (nodes (step scrolled (browser Function False [0], Load 0)) 0)"
proof -
  have m: "attrs (nodes waiting 0) ''data-lazyload'' = None"
    "attrs (nodes scrolled 0) ''data-lazyload'' = None"
    unfolding scrolled_def waiting_def by code_simp+
  have c: "checkType waiting \<noteq> Some ReallyOld \<and> Frame \<noteq> Load 0"
    unfolding waiting_def by code_simp
  have u: "updates (trace waiting) = []" "updates (trace scrolled) = [0]"
    "src (nodes scrolled 0) = Some ''a.png''" "load_listener (nodes scrolled 0)"
    unfolding scrolled_def waiting_def by code_simp+
  have d: "deferred (nodes waiting 0) = (Some ''a.png'', None, None)"
    unfolding waiting_def by code_simp
  from deferred_attributes_until_load [OF m(1), of Frame "browser Function False [0]"] c d
  have k: "deferred (nodes scrolled 0) = (Some ''a.png'', None, None)"
    by (simp add: scrolled_def)
  from deferred_attributes_until_load [OF m(2), of _ "browser Function False [0]"] u
  have "no_deferred (nodes (step scrolled (browser Function False [0], Load 0)) 0)"
    by simp
  with m u k show ?thesis by simp
qed

text \<open>
  Claim C2, as stated, fails for the clean-up of the \<^verbatim>\<open>'old'\<close> strategy. One visible
  image is loaded in a browser without IntersectionObserver. When \<^verbatim>\<open>lazyLoad\<close> returns,
  the scan has handed the image to the updater and the clean-up has removed it from the
  working set, which is empty; the image has its \<^verbatim>\<open>src\<close> and still carries \<^verbatim>\<open>data-src\<close>.
\<close>

theorem old_cleanup_strips_counterexample:
  "checkType (snd (lazyLoad (browser Function False [0]) no_overrides page)) = Some Old
    \<and> updates (trace (snd (lazyLoad (browser Function False [0]) no_overrides page))) = [0]
    \<and> els (snd (lazyLoad (browser Function False [0]) no_overrides page)) = []
    \<and> src (nodes (snd (lazyLoad (browser Function False [0]) no_overrides page)) 0) = Some ''a.png''
    \<and> attrs (nodes (snd (lazyLoad (browser Function False [0]) no_overrides page)) 0) ''data-src''
        = Some ''a.png''"
  by code_simp

subsection \<open>Re-scans\<close>

lemma init_rebuilt: "init e st = setSrcs e (rebuilt e st)"
proof -
  have "options (teardown st) = options st"
    using teardown_setup [of st] by (simp add: same_setup_def)
  then show ?thesis
    by (simp add: init_def rebuilt_def Let_def htmlCollectionToArray_eq)
qed

lemma rebuilt_fields:
  "checkType (rebuilt e st) = checkType st"
  "options (rebuilt e st) = options st"
  "els (rebuilt e st) = map Some (querySelectorAll e (elements (options st)))"
  "elsLength (rebuilt e st) = int (length (querySelectorAll e (elements (options st))))"
  "frameCount (rebuilt e st) = maxFrameCount (options st)"
  "nodes (rebuilt e st) = nodes st"
  "updates (trace (rebuilt e st)) = updates (trace st)"
  using teardown_setup [of st] teardown_quiet [of st]
  by (simp_all add: rebuilt_def same_setup_def quiet_def)

lemma lazyLoad_registers:
  assumes "fst (lazyLoad e ov ns) = None"
    and "present (pageUpdatedEventName (merge_options ov))"
  shows "doc_listener (snd (lazyLoad e ov ns)) = pageUpdatedEventName (merge_options ov)"
proof -
  obtain err st1 where s: "init e (configured e ov ns) = (err, st1)"
    by (cases "init e (configured e ov ns)")
  have "options st1 = merge_options ov"
    using init_setup [of "configured e ov ns" e] s by (simp add: same_setup_def)
  with assms s show ?thesis
    by (cases err) (simp_all add: lazyLoad_def configured_def Let_def)
qed

text \<open>Under \<^verbatim>\<open>'new'\<close>, the loop of lines 204 to 208 observes the elements that are not
  flagged, and leaves the working set as it is.\<close>

lemma observe_fold:
  assumes "observer s = Some ts"
  shows "els (foldl observe_elem s xs) = els s
    \<and> nodes (foldl observe_elem s xs) = nodes s
    \<and> (\<exists>ts'. observer (foldl observe_elem s xs) = Some ts'
          \<and> set ts' = set ts \<union> {r. Some r \<in> set xs \<and> lazyloaded (nodes s r) = None})"
  using assms
proof (induction xs arbitrary: s ts)
  case Nil
  then show ?case by simp
next
  case (Cons x xs)
  let ?s1 = "observe_elem s x"
  have e: "els ?s1 = els s" and n: "nodes ?s1 = nodes s"
    by (cases x; simp add: observe_elem_def observe_def)+
  have "\<exists>ts1. observer ?s1 = Some ts1
      \<and> set ts1 = set ts \<union> {r. x = Some r \<and> lazyloaded (nodes s r) = None}"
  proof (cases x)
    case None
    with Cons.prems show ?thesis by (simp add: observe_elem_def)
  next
    case (Some a)
    show ?thesis
    proof (cases "lazyloaded (nodes s a) = None")
      case True
      with Some Cons.prems show ?thesis
        by (auto simp add: observe_elem_def observe_def)
    next
      case False
      with Some Cons.prems show ?thesis
        by (auto simp add: observe_elem_def)
    qed
  qed
  then obtain ts1 where o: "observer ?s1 = Some ts1"
    and t: "set ts1 = set ts \<union> {r. x = Some r \<and> lazyloaded (nodes s r) = None}"
    by blast
  from Cons.IH [OF o] obtain ts' where
    a: "els (foldl observe_elem ?s1 xs) = els ?s1"
    and b: "nodes (foldl observe_elem ?s1 xs) = nodes ?s1"
    and c: "observer (foldl observe_elem ?s1 xs) = Some ts'"
    and d: "set ts' = set ts1 \<union> {r. Some r \<in> set xs \<and> lazyloaded (nodes ?s1 r) = None}"
    by blast
  from d t n have "set ts' = set ts \<union> {r. Some r \<in> set (x # xs) \<and> lazyloaded (nodes s r) = None}"
    by auto
  with a b c e n show ?case by simp
qed

lemma setSrcs_new_observes:
  assumes "checkType s = Some New" and "w_IntersectionObserver e"
  shows "fst (setSrcs e s) = None
    \<and> els (snd (setSrcs e s)) = els s
    \<and> (\<exists>ts. observer (snd (setSrcs e s)) = Some ts
          \<and> set ts = {r. Some r \<in> set (els s) \<and> lazyloaded (nodes s r) = None})"
proof -
  let ?s0 = "s\<lparr>observer := Some [], elsLength := int (length (els s)),
                 trace := trace s @ [NewIntersectionObserver]\<rparr>"
  have "observer ?s0 = Some []" by simp
  from observe_fold [OF this, of "els s"] assms show ?thesis
    by (simp add: setSrcs_def)
qed

lemma setSrcs_really_old_all:
  assumes "checkType s = Some ReallyOld" and "els s = map Some c"
  shows "els (snd (setSrcs e s)) = []
    \<and> updates (trace (snd (setSrcs e s))) = updates (trace s) @ c"
  using assms really_old_fold_updates [of e "s\<lparr>elsLength := int (length (els s))\<rparr>" c]
  by (simp add: setSrcs_def)

lemma reschedule_els: "els (snd (reschedule e s)) = els s"
  by (simp add: reschedule_def Let_def)

lemma setSrcs_old_scans:
  assumes old: "checkType s = Some Old"
    and at: "frameCount s = maxFrameCount (options s)"
    and len: "elsLength s = int (length (els s))"
    and ok: "fst (scan_from e 0 (length (els s)) s) = None"
  shows "els (snd (setSrcs e s)) =
    compact_from 0 (length (els s)) (els (snd (scan_from e 0 (length (els s)) s)))"
proof -
  from len have eq: "s\<lparr>elsLength := int (length (els s))\<rparr> = s" by simp
  from old show ?thesis
  proof (cases rule: setSrcs_old_cases [where e = e])
    case idle
    with at show ?thesis by simp
  next
    case (threw err st1)
    with ok eq show ?thesis by simp
  next
    case (scanned st1)
    from scan_from_schedule [of s e 0 "length (els s)"] scanned(2) eq len
    have "nat (elsLength st1) = length (els s)" by (simp add: same_schedule_def)
    with scanned eq show ?thesis by (simp add: reschedule_els)
  qed
qed

text \<open>
  Claim C3, as the code has it. The strategy is derived from the environment once, in
  \<^verbatim>\<open>_lazyLoad\<close>, which then registers \<^verbatim>\<open>_init\<close> on the document under the configured
  event name; the strategy and the registration stay whatever callbacks follow. Each
  occurrence of the event under the registered name re-runs \<^verbatim>\<open>_init\<close> in the environment
  \<open>e'\<close> of the moment: the working set is rebuilt from the selector query of \<open>e'\<close>, and
  \<^verbatim>\<open>_setSrcs\<close> runs on it under the strategy already selected, which is not assigned again
  (the capabilities of \<open>e'\<close> are not probed). Under \<^verbatim>\<open>'really-old'\<close> every element found is
  handed to the updater and the working set is emptied; under \<^verbatim>\<open>'new'\<close> the working set
  is the elements found, and the new observer observes those of them that are not
  flagged; under \<^verbatim>\<open>'old'\<close> the elements found are scanned at once and the working set is
  what the clean-up leaves of them.
\<close>

theorem rescan_keeps_strategy:
  "checkType (snd (lazyLoad e ov ns)) = Some (detect e)
   \<and> checkType (run xs (snd (lazyLoad e ov ns))) = Some (detect e)
   \<and> (fst (lazyLoad e ov ns) = None \<and> present (pageUpdatedEventName (merge_options ov)) \<longrightarrow>
        doc_listener (run xs (snd (lazyLoad e ov ns))) = pageUpdatedEventName (merge_options ov))
   \<and> checkType (step st (e', PageUpdated n)) = checkType st
   \<and> (doc_listener st = Some n \<longrightarrow>
        step st (e', PageUpdated n) = snd (setSrcs e' (rebuilt e' st))
        \<and> checkType (rebuilt e' st) = checkType st
        \<and> els (rebuilt e' st) = map Some (querySelectorAll e' (elements (options st))))
   \<and> (doc_listener st = Some n \<and> checkType st = Some ReallyOld \<longrightarrow>
        els (step st (e', PageUpdated n)) = []
        \<and> updates (trace (step st (e', PageUpdated n)))
            = updates (trace st) @ querySelectorAll e' (elements (options st)))
   \<and> (doc_listener st = Some n \<and> checkType st = Some New \<and> w_IntersectionObserver e' \<longrightarrow>
        els (step st (e', PageUpdated n)) = map Some (querySelectorAll e' (elements (options st)))
        \<and> (\<exists>ts. observer (step st (e', PageUpdated n)) = Some ts
              \<and> set ts = {r. r \<in> set (querySelectorAll e' (elements (options st)))
                             \<and> lazyloaded (nodes st r) = None}))
   \<and> (doc_listener st = Some n \<and> checkType st = Some Old
        \<and> fst (scan_from e' 0 (length (querySelectorAll e' (elements (options st))))
                 (rebuilt e' st)) = None \<longrightarrow>
        els (step st (e', PageUpdated n)) =
          compact_from 0 (length (querySelectorAll e' (elements (options st))))
            (els (snd (scan_from e' 0 (length (querySelectorAll e' (elements (options st))))
                        (rebuilt e' st)))))"
proof (intro conjI impI)
  show "checkType (snd (lazyLoad e ov ns)) = Some (detect e)"
    by (rule lazyLoad_checkType)
  show "checkType (run xs (snd (lazyLoad e ov ns))) = Some (detect e)"
    using run_setup [of "snd (lazyLoad e ov ns)" xs] lazyLoad_checkType [of e ov ns]
    by (simp add: same_setup_def)
  show "checkType (step st (e', PageUpdated n)) = checkType st"
    using step_setup [of st "(e', PageUpdated n)"] by (simp add: same_setup_def)
next
  assume "fst (lazyLoad e ov ns) = None \<and> present (pageUpdatedEventName (merge_options ov))"
  then have "doc_listener (snd (lazyLoad e ov ns)) = pageUpdatedEventName (merge_options ov)"
    by (simp add: lazyLoad_registers)
  with run_setup [of "snd (lazyLoad e ov ns)" xs]
  show "doc_listener (run xs (snd (lazyLoad e ov ns))) = pageUpdatedEventName (merge_options ov)"
    by (simp add: same_setup_def)
next
  assume "doc_listener st = Some n"
  then show "step st (e', PageUpdated n) = snd (setSrcs e' (rebuilt e' st))"
    by (simp add: step_def init_rebuilt)
next
  show "checkType (rebuilt e' st) = checkType st"
    and "els (rebuilt e' st) = map Some (querySelectorAll e' (elements (options st)))"
    by (simp_all add: rebuilt_fields)
next
  assume a: "doc_listener st = Some n \<and> checkType st = Some ReallyOld"
  then have s: "step st (e', PageUpdated n) = snd (setSrcs e' (rebuilt e' st))"
    by (simp add: step_def init_rebuilt)
  from a have "checkType (rebuilt e' st) = Some ReallyOld" by (simp add: rebuilt_fields)
  from setSrcs_really_old_all [OF this rebuilt_fields(3), where e = e']
  show "els (step st (e', PageUpdated n)) = []"
    and "updates (trace (step st (e', PageUpdated n)))
            = updates (trace st) @ querySelectorAll e' (elements (options st))"
    unfolding s by (simp_all add: rebuilt_fields)
next
  assume a: "doc_listener st = Some n \<and> checkType st = Some New \<and> w_IntersectionObserver e'"
  then have s: "step st (e', PageUpdated n) = snd (setSrcs e' (rebuilt e' st))"
    by (simp add: step_def init_rebuilt)
  from a have c: "checkType (rebuilt e' st) = Some New" and w: "w_IntersectionObserver e'"
    by (simp_all add: rebuilt_fields)
  from setSrcs_new_observes [OF c w]
  show "els (step st (e', PageUpdated n)) = map Some (querySelectorAll e' (elements (options st)))"
    and "\<exists>ts. observer (step st (e', PageUpdated n)) = Some ts
              \<and> set ts = {r. r \<in> set (querySelectorAll e' (elements (options st)))
                             \<and> lazyloaded (nodes st r) = None}"
    unfolding s by (auto simp add: rebuilt_fields)
next
  assume a: "doc_listener st = Some n \<and> checkType st = Some Old
        \<and> fst (scan_from e' 0 (length (querySelectorAll e' (elements (options st))))
                 (rebuilt e' st)) = None"
  then have s: "step st (e', PageUpdated n) = snd (setSrcs e' (rebuilt e' st))"
    by (simp add: step_def init_rebuilt)
  from a have "checkType (rebuilt e' st) = Some Old"
    and "frameCount (rebuilt e' st) = maxFrameCount (options (rebuilt e' st))"
    and "elsLength (rebuilt e' st) = int (length (els (rebuilt e' st)))"
    and "fst (scan_from e' 0 (length (els (rebuilt e' st))) (rebuilt e' st)) = None"
    by (simp_all add: rebuilt_fields)
  from setSrcs_old_scans [OF this]
  show "els (step st (e', PageUpdated n)) =
          compact_from 0 (length (querySelectorAll e' (elements (options st))))
            (els (snd (scan_from e' 0 (length (querySelectorAll e' (elements (options st))))
                        (rebuilt e' st))))"
    unfolding s by (simp add: rebuilt_fields)
qed

theorem rescan_keeps_strategy_witness:
  "detect upgraded = New
    \<and> checkType first_load = Some Old
    \<and> doc_listener first_load = Some ''page:updated''
    \<and> checkType (step first_load (upgraded, PageUpdated ''page:updated'')) = Some Old
    \<and> els (rebuilt upgraded first_load) = [Some 0, Some 1]
    \<and> els (step first_load (upgraded, PageUpdated ''page:updated'')) = [Some 0]
    \<and> updates (trace first_load) = [0]
    \<and> updates (trace (step first_load (upgraded, PageUpdated ''page:updated''))) = [0, 1]"
proof -
  note t = rescan_keeps_strategy [of "browser Function False [0]" no_overrides page "[]"
      first_load upgraded "''page:updated''", folded first_load_def]
  have d: "detect upgraded = New" "detect (browser Function False [0]) = Old"
    by (simp_all add: detect_def upgraded_def browser_def)
  have f: "fst (lazyLoad (browser Function False [0]) no_overrides page) = None"
    by code_simp
  have p: "present (pageUpdatedEventName (merge_options no_overrides))"
    "pageUpdatedEventName (merge_options no_overrides) = Some ''page:updated''"
    by (simp_all add: present_def merge_options_def no_overrides_def defaults_def)
  have q: "querySelectorAll upgraded (elements (options first_load)) = [0, 1]"
    by (simp add: upgraded_def browser_def)
  from t d have c: "checkType first_load = Some Old"
    by simp
  from t f p have l: "doc_listener first_load = Some ''page:updated''"
    by (simp add: run_def)
  from t c have k: "checkType (step first_load (upgraded, PageUpdated ''page:updated'')) = Some Old"
    by simp
  from t l q have r: "els (rebuilt upgraded first_load) = [Some 0, Some 1]"
    by simp
  have ok: "fst (scan_from upgraded 0 2 (rebuilt upgraded first_load)) = None"
    unfolding first_load_def upgraded_def by code_simp
  have v: "compact_from 0 2 (els (snd (scan_from upgraded 0 2 (rebuilt upgraded first_load))))
      = [Some 0]"
    unfolding first_load_def upgraded_def by code_simp
  from t have i: "doc_listener first_load = Some ''page:updated'' \<and> checkType first_load = Some Old
        \<and> fst (scan_from upgraded 0 (length (querySelectorAll upgraded (elements (options first_load))))
                 (rebuilt upgraded first_load)) = None \<longrightarrow>
        els (step first_load (upgraded, PageUpdated ''page:updated'')) =
          compact_from 0 (length (querySelectorAll upgraded (elements (options first_load))))
            (els (snd (scan_from upgraded 0
                        (length (querySelectorAll upgraded (elements (options first_load))))
                        (rebuilt upgraded first_load))))"
    by blast
  from i l c q ok v
  have w: "els (step first_load (upgraded, PageUpdated ''page:updated'')) = [Some 0]"
    by (simp add: numeral_2_eq_2)
  have u: "updates (trace first_load) = [0]"
    "updates (trace (step first_load (upgraded, PageUpdated ''page:updated''))) = [0, 1]"
    unfolding first_load_def upgraded_def by code_simp+
  from d c l k r w u show ?thesis by simp
qed

text \<open>
  Claim C3, as stated, fails. A page is loaded in a browser without
  IntersectionObserver (strategy \<^verbatim>\<open>'old'\<close>); the document event then occurs, under the
  registered name, in an environment that has IntersectionObserver, where a fresh probe
  answers \<^verbatim>\<open>'new'\<close>. The strategy is still \<^verbatim>\<open>'old'\<close>.
\<close>

theorem rescan_probes_again_counterexample:
  "doc_listener (snd (lazyLoad (browser Function False [0]) no_overrides page)) = Some ''page:updated''
   \<and> detect (browser Function True [0]) = New
   \<and> checkType (step (snd (lazyLoad (browser Function False [0]) no_overrides page))
        (browser Function True [0], PageUpdated ''page:updated'')) = Some Old"
  by code_simp

end
